theory Spec2Isabelle
  imports Main "HOL-Library.Word"
begin

unbundle bit_operations_syntax

text \<open>
  A model of go-downloader, the tool that mirrors the Go release catalog: the skip
  policies, the hash type, the integrity verifier \<open>checkHash\<close>, the fetch
  \<open>downloadFile\<close> and the loop of \<open>main\<close> that drives them, with the file system as
  explicit state, the network as a parameter and every line printed and system call
  made recorded in a trace. The definitions follow the revision with \<open>skipVersions\<close>,
  \<open>computeHash\<close>, \<open>writeHash\<close> and \<open>downloadFile\<close>; the earlier \<open>src/main.go\<close> is modelled
  beside it where it differs. Decoding the catalog from JSON (\<open>Parse\<close>) and the exit
  status of the process are not part of the model: a run starts from the parsed catalog.
\<close>

section \<open>Data model\<close>

text \<open>
  Go strings are byte sequences; they are modelled as \<open>string\<close> (lists of 8-bit
  characters). Raw digest bytes (\<open>[]byte\<close>) are lists of 8-bit words. A \<open>nil\<close> slice is
  the empty list: the code only takes its length and ranges over it.
\<close>

type_synonym byte = "8 word"
type_synonym bytes = "byte list"

text \<open>\<open>type Hash string\<close>\<close>

type_synonym Hash = string

text \<open>\<open>type File struct\<close>, \<open>type Release struct\<close>, \<open>type Releases []Release\<close>\<close>

record File =
  Filename :: string
  OS :: string
  Architecture :: string
  Version :: string
  SHA256Sum :: Hash
  Size :: "64 word"
  Kind :: string

record Release =
  Version :: string
  IsStable :: bool
  Downloads :: "File list"

type_synonym Releases = "Release list"

section \<open>Hexadecimal text (\<open>encoding/hex\<close>)\<close>

text \<open>
  \<open>fromHexChar\<close> is the library's reverse table: the value of a hexadecimal digit of
  either case, and \<open>0xff\<close> for every other byte.
\<close>

definition reverseHexTable :: "(char \<times> byte) list" where
  "reverseHexTable =
     zip ''0123456789'' [0, 1, 2, 3, 4, 5, 6, 7, 8, 9] @
     zip ''abcdef'' [10, 11, 12, 13, 14, 15] @
     zip ''ABCDEF'' [10, 11, 12, 13, 14, 15]"

definition fromHexChar :: "char \<Rightarrow> byte" where
  "fromHexChar c = (case map_of reverseHexTable c of None \<Rightarrow> 0xff | Some v \<Rightarrow> v)"

text \<open>
  \<open>hex.DecodeString\<close>: two digits give one byte, \<open>(a << 4) | b\<close>. An invalid digit
  or an odd length is an error (\<open>None\<close>); the code never uses the partial result that
  the library returns beside the error.
\<close>

fun hexDecode :: "string \<Rightarrow> bytes option" where
  "hexDecode [] = Some []"
| "hexDecode [p] = None"
| "hexDecode (p # q # rest) =
     (if fromHexChar p > 0x0f then None
      else if fromHexChar q > 0x0f then None
      else (case hexDecode rest of
              None \<Rightarrow> None
            | Some bs \<Rightarrow> Some ((push_bit 4 (fromHexChar p) OR fromHexChar q) # bs)))"

definition hextable :: string where
  "hextable = ''0123456789abcdef''"

text \<open>\<open>hex.EncodeToString\<close>: \<open>hextable[v >> 4]\<close>, then \<open>hextable[v & 0x0f]\<close>.\<close>

fun hexEncode :: "bytes \<Rightarrow> string" where
  "hexEncode [] = []"
| "hexEncode (v # vs) =
     hextable ! unat (drop_bit 4 v) # hextable ! unat (v AND 0x0f) # hexEncode vs"

section \<open>\<open>Hash.Bytes\<close> and \<open>Hash.Equal\<close>\<close>

definition Bytes :: "Hash \<Rightarrow> bytes option" where
  "Bytes h = hexDecode h"

text \<open>
  The comparison loop \<open>for ix := range self\<close>. Indexing \<open>other[ix]\<close> beyond its length
  is a run-time panic in Go: the result \<open>None\<close>.
\<close>

function equalLoop :: "bytes \<Rightarrow> bytes \<Rightarrow> nat \<Rightarrow> bool option" where
  "equalLoop self other ix =
     (if ix < length self then
        (if ix < length other then
           (if self ! ix \<noteq> other ! ix then Some False
            else equalLoop self other (Suc ix))
         else None)
      else Some True)"
  by pat_completeness auto
termination
  by (relation "measure (\<lambda>(self, other, ix). length self - ix)") auto

declare equalLoop.simps [simp del]

definition Equal :: "Hash \<Rightarrow> bytes \<Rightarrow> bool option" where
  "Equal h other =
     (case Bytes h of
        None \<Rightarrow> Some False
      | Some self \<Rightarrow>
          if length self \<noteq> length other then Some False
          else equalLoop self other 0)"

section \<open>Skip policy\<close>

definition skipVersions :: "string list" where
  "skipVersions = [''go1.2'']"

definition skipWords :: "string list" where
  "skipWords = [''beta'', ''rc'']"

text \<open>\<open>strings.Contains\<close>: the second string occurs as a contiguous run of the first.\<close>

fun hasPrefix :: "string \<Rightarrow> string \<Rightarrow> bool" where
  "hasPrefix s [] = True"
| "hasPrefix [] (c # cs) = False"
| "hasPrefix (x # xs) (c # cs) = (x = c \<and> hasPrefix xs cs)"

fun contains :: "string \<Rightarrow> string \<Rightarrow> bool" where
  "contains [] sub = hasPrefix [] sub"
| "contains (x # xs) sub = (hasPrefix (x # xs) sub \<or> contains xs sub)"

text \<open>The two loops of \<open>skipRelease\<close>, each returning at its first hit.\<close>

fun matchesAny :: "string list \<Rightarrow> string \<Rightarrow> bool" where
  "matchesAny [] version = False"
| "matchesAny (ver # vers) version = (if ver = version then True else matchesAny vers version)"

fun containsAny :: "string list \<Rightarrow> string \<Rightarrow> bool" where
  "containsAny [] version = False"
| "containsAny (word # words) version =
     (if contains version word then True else containsAny words version)"

definition skipRelease :: "string \<Rightarrow> bool" where
  "skipRelease version =
     (if matchesAny skipVersions version then True
      else if containsAny skipWords version then True
      else False)"

definition skipFile :: "File \<Rightarrow> bool" where
  "skipFile file =
     (if Size file = 0 then True
      else if length (SHA256Sum file) = 0 then True
      else False)"

section \<open>The outside world\<close>

text \<open>
  The file system is a state: what each path holds. \<open>Reg c r\<close> is a regular file with
  content \<open>c\<close>, readable by the process when \<open>r\<close>; \<open>NoAccess\<close> is a path that cannot
  even be examined (an error other than "does not exist"). A path names one file: links
  that make two path strings name the same file are outside the model.
\<close>

type_synonym path = string

datatype node = Missing | NoAccess | Dir | Reg string bool

type_synonym fs = "path \<Rightarrow> node"

text \<open>
  What \<open>Collector.Visit\<close> does with a URL, as the code sees it: either the response
  callback runs with a status code and a body (capped at \<open>maxDownloadBody\<close> by the
  collector) and \<open>Visit\<close> returns no error, or \<open>Visit\<close> returns an error and the
  callback never runs (transport failure, or a status the collector itself rejects).
  This is the outcome for the collector as it stands when \<open>Visit\<close> is called: the store
  of visited URLs that the collector shares with its clones is modelled with the loop
  below.
\<close>

datatype outcome = NoResponse | Response int string

text \<open>
  The parts of the system that the program uses and does not define: the SHA-256 digest
  (\<open>crypto.SHA256\<close>), \<open>path.Join\<close>, the network, whether a path may be created or
  overwritten (permissions, free space), and the size the system reports for a
  directory.
\<close>

record sys =
  sha256 :: "string \<Rightarrow> bytes"
  pathJoin :: "string \<Rightarrow> string \<Rightarrow> string"
  visit :: "string \<Rightarrow> outcome"
  writable :: "path \<Rightarrow> bool"
  dirSize :: nat

text \<open>The observable trace: every line printed, every system call made.\<close>

datatype stream = StatusOut | ErrOut

datatype msg =
    Skipping string
  | SkippingFile string string
  | AlreadyDownloaded string string
  | Downloading string string Hash
  | CouldNotCreate path
  | CouldNotStat path
  | NotADirectory path
  | CouldNotRead path
  | CouldNotHash path
  | SizeMismatch path int "64 word"
  | MalformedHashFile path
  | ShaMismatch path Hash string
  | Getting string
  | CouldNotVisit string
  | CouldNotSave path
  | Downloaded path
  | SavedHash path
  | CouldNotWriteHash path
  | ResponseStatus int
  | CouldNotWriteHashFile path

datatype event =
    Print stream msg
  | Stat path
  | ReadFile path
  | Open path
  | WriteFile path string bool
  | Mkdir path bool
  | Visit string

text \<open>An \<open>os\<close> call fails with "does not exist", fails otherwise, or succeeds.\<close>

datatype 'a res = NotExist | OtherErr | Ok 'a

text \<open>\<open>os.Stat\<close>: the size (an \<open>int64\<close>) and \<open>IsDir\<close>.\<close>

definition osStat :: "sys \<Rightarrow> fs \<Rightarrow> path \<Rightarrow> (int \<times> bool) res" where
  "osStat S fs p =
     (case fs p of
        Missing \<Rightarrow> NotExist
      | NoAccess \<Rightarrow> OtherErr
      | Dir \<Rightarrow> Ok (int (dirSize S), True)
      | Reg c r \<Rightarrow> Ok (int (length c), False))"

text \<open>\<open>ioutil.ReadFile\<close>\<close>

definition readFile :: "fs \<Rightarrow> path \<Rightarrow> string res" where
  "readFile fs p =
     (case fs p of
        Missing \<Rightarrow> NotExist
      | NoAccess \<Rightarrow> OtherErr
      | Dir \<Rightarrow> OtherErr
      | Reg c r \<Rightarrow> if r then Ok c else OtherErr)"

text \<open>
  \<open>os.Open\<close> followed by \<open>io.CopyBuffer\<close> into the hasher: the open fails, or the
  read fails (a directory opens but cannot be read), or the whole content is read.
\<close>

datatype opened = OpenFailed | ReadFailed | Contents string

definition openAndRead :: "fs \<Rightarrow> path \<Rightarrow> opened" where
  "openAndRead fs p =
     (case fs p of
        Missing \<Rightarrow> OpenFailed
      | NoAccess \<Rightarrow> OpenFailed
      | Dir \<Rightarrow> ReadFailed
      | Reg c r \<Rightarrow> if r then Contents c else OpenFailed)"

text \<open>
  \<open>ioutil.WriteFile\<close> (also behind \<open>Response.Save\<close>): creates the file or truncates
  it. A file that already exists keeps its permissions; a new one is readable.
\<close>

definition writeFile :: "sys \<Rightarrow> fs \<Rightarrow> path \<Rightarrow> string \<Rightarrow> fs option" where
  "writeFile S fs p data =
     (if \<not> writable S p then None
      else (case fs p of
              Missing \<Rightarrow> Some (fs(p := Reg data True))
            | Reg c r \<Rightarrow> Some (fs(p := Reg data r))
            | NoAccess \<Rightarrow> None
            | Dir \<Rightarrow> None))"

text \<open>\<open>os.Mkdir\<close>\<close>

definition mkdir :: "sys \<Rightarrow> fs \<Rightarrow> path \<Rightarrow> fs option" where
  "mkdir S fs p =
     (if writable S p \<and> fs p = Missing then Some (fs(p := Dir)) else None)"

section \<open>Directories, targets and sidecars\<close>

definition fileDownloadFmt :: "string \<Rightarrow> string" where
  "fileDownloadFmt name = ''https://golang.org/dl/'' @ name"

text \<open>
  \<open>ensureDirectory\<close>. The branch \<open>info == nil\<close> after a successful \<open>os.Stat\<close> cannot be
  taken and has no counterpart here.
\<close>

definition ensureDirectory :: "sys \<Rightarrow> fs \<Rightarrow> string \<Rightarrow> bool \<times> fs \<times> event list" where
  "ensureDirectory S fs name =
     (case osStat S fs name of
        NotExist \<Rightarrow>
          (case mkdir S fs name of
             None \<Rightarrow> (False, fs, [Stat name, Mkdir name False, Print ErrOut (CouldNotCreate name)])
           | Some fs' \<Rightarrow> (True, fs', [Stat name, Mkdir name True]))
      | OtherErr \<Rightarrow> (False, fs, [Stat name, Print ErrOut (CouldNotStat name)])
      | Ok info \<Rightarrow>
          if \<not> snd info then (False, fs, [Stat name, Print ErrOut (NotADirectory name)])
          else (True, fs, [Stat name]))"

definition dlTarget :: "sys \<Rightarrow> string \<Rightarrow> File \<Rightarrow> path" where
  "dlTarget S dir file = pathJoin S dir (Filename file)"

definition dlSHA :: "path \<Rightarrow> path" where
  "dlSHA target = target @ ''.sha''"

section \<open>The integrity verifier\<close>

text \<open>\<open>writeHash\<close> returns whether the write succeeded (\<open>err == nil\<close>).\<close>

definition writeHash :: "sys \<Rightarrow> fs \<Rightarrow> path \<Rightarrow> string \<Rightarrow> bool \<times> fs \<times> event list" where
  "writeHash S fs hashFile hash =
     (case writeFile S fs hashFile hash of
        None \<Rightarrow> (False, fs, [WriteFile hashFile hash False, Print ErrOut (CouldNotWriteHash hashFile)])
      | Some fs' \<Rightarrow> (True, fs', [WriteFile hashFile hash True]))"

definition computeHash :: "sys \<Rightarrow> fs \<Rightarrow> path \<Rightarrow> bytes \<times> fs \<times> event list" where
  "computeHash S fs target =
     (case openAndRead fs target of
        OpenFailed \<Rightarrow> ([], fs, [Open target, Print ErrOut (CouldNotRead target)])
      | ReadFailed \<Rightarrow> ([], fs, [Open target, Print ErrOut (CouldNotHash target)])
      | Contents c \<Rightarrow>
          (let hashBytes = sha256 S c;
               hash = hexEncode hashBytes;
               hashFile = dlSHA target;
               (ok, fs', evs) = writeHash S fs hashFile hash
           in (hashBytes, fs', Open target # evs)))"

text \<open>
  \<open>checkHash\<close>: the verdict (\<open>None\<close> if the comparison panicked), the file system
  afterwards and the trace. \<open>int64(file.Size)\<close> reads the unsigned size as two's
  complement.
\<close>

definition checkHash :: "sys \<Rightarrow> fs \<Rightarrow> string \<Rightarrow> File \<Rightarrow> bool option \<times> fs \<times> event list" where
  "checkHash S fs dir file =
     (let target = dlTarget S dir file in
      case osStat S fs target of
        NotExist \<Rightarrow> (Some False, fs, [Stat target])
      | OtherErr \<Rightarrow> (Some False, fs, [Stat target])
      | Ok info \<Rightarrow>
          if fst info \<noteq> sint (Size file)
          then (Some False, fs,
                [Stat target, Print ErrOut (SizeMismatch target (fst info) (Size file))])
          else
            (let hashFile = dlSHA target in
             case readFile fs hashFile of
               NotExist \<Rightarrow>
                 (let (hashBytes, fs', evs) = computeHash S fs target
                  in (Equal (SHA256Sum file) hashBytes, fs',
                      Stat target # ReadFile hashFile # evs))
             | OtherErr \<Rightarrow>
                 (Some False, fs,
                  [Stat target, ReadFile hashFile, Print ErrOut (CouldNotRead hashFile)])
             | Ok hdata \<Rightarrow>
                 (case hexDecode hdata of
                    None \<Rightarrow>
                      (Some False, fs,
                       [Stat target, ReadFile hashFile,
                        Print ErrOut (MalformedHashFile hashFile)])
                  | Some hb \<Rightarrow>
                      (case Equal (SHA256Sum file) hb of
                         None \<Rightarrow> (None, fs, [Stat target, ReadFile hashFile])
                       | Some matches \<Rightarrow>
                           (Some matches, fs,
                            [Stat target, ReadFile hashFile] @
                            (if \<not> matches
                             then [Print ErrOut (ShaMismatch target (SHA256Sum file) hdata)]
                             else []))))))"

section \<open>Fetch and persist\<close>

definition downloadFile :: "sys \<Rightarrow> fs \<Rightarrow> string \<Rightarrow> File \<Rightarrow> fs \<times> event list" where
  "downloadFile S fs releaseName download =
     (let dl = fileDownloadFmt (Filename download) in
      case visit S dl of
        NoResponse \<Rightarrow>
          (fs, [Print ErrOut (Getting dl), Visit dl, Print ErrOut (CouldNotVisit dl)])
      | Response status body \<Rightarrow>
          if status = 200 then
            (let target = dlTarget S releaseName download in
             case writeFile S fs target body of
               None \<Rightarrow>
                 (fs, [Print ErrOut (Getting dl), Visit dl, WriteFile target body False,
                       Print ErrOut (CouldNotSave target)])
             | Some fs1 \<Rightarrow>
                 (let hashFile = dlSHA target;
                      (ok, fs2, evs) = writeHash S fs1 hashFile (SHA256Sum download)
                  in (fs2,
                      [Print ErrOut (Getting dl), Visit dl, WriteFile target body True,
                       Print StatusOut (Downloaded target)] @ evs @
                      (if ok then [Print StatusOut (SavedHash hashFile)] else []))))
          else (fs, [Print ErrOut (Getting dl), Visit dl]))"

section \<open>The reconciliation loop\<close>

text \<open>
  The body of the inner loop for one artifact. The first component is \<open>False\<close> when a
  panic unwinds the run, \<open>True\<close> when the loop goes on to the next artifact.
\<close>

definition processFile :: "sys \<Rightarrow> string \<Rightarrow> File \<Rightarrow> fs \<Rightarrow> bool \<times> fs \<times> event list" where
  "processFile S releaseName download fs =
     (if skipFile download
      then (True, fs, [Print ErrOut (SkippingFile releaseName (Filename download))])
      else
        (case checkHash S fs releaseName download of
           (None, fs1, evs) \<Rightarrow> (False, fs1, evs)
         | (Some True, fs1, evs) \<Rightarrow>
             (True, fs1,
              evs @ [Print ErrOut (AlreadyDownloaded releaseName (Filename download))])
         | (Some False, fs1, evs) \<Rightarrow>
             (let (fs2, evs2) = downloadFile S fs1 releaseName download
              in (True, fs2,
                  evs @ [Print StatusOut (Downloading releaseName (Filename download)
                                            (SHA256Sum download))] @ evs2))))"

text \<open>
  The collector of \<open>main\<close> and every clone made from it share one store of visited URLs,
  and revisiting is not allowed: \<open>Visit\<close> of a URL that is in the store returns an error at
  once, without a request and without running the callback; any other URL enters the
  store when \<open>Visit\<close> is called. The store lives in memory, so each run starts with a
  fresh one, which holds the URL of the catalog by the time the callback runs.
  \<open>withStore S visited\<close> is the collector that \<open>downloadFile\<close> receives when the store
  holds \<open>visited\<close>, and \<open>visitedIn\<close> lists the URLs that a trace passed to \<open>Visit\<close>.
\<close>

definition dlURL :: string where
  "dlURL = ''https://golang.org/dl/?mode=json&include=all''"

definition withStore :: "sys \<Rightarrow> string list \<Rightarrow> sys" where
  "withStore S visited =
     S\<lparr>visit := (\<lambda>url. if url \<in> set visited then NoResponse else visit S url)\<rparr>"

fun visitedIn :: "event list \<Rightarrow> string list" where
  "visitedIn [] = []"
| "visitedIn (Visit url # evs) = url # visitedIn evs"
| "visitedIn (e # evs) = visitedIn evs"

text \<open>
  The loops thread the store and the file system. Their results are: whether the run
  goes on, the store, the file system, the trace.
\<close>

fun loopFiles ::
    "sys \<Rightarrow> string \<Rightarrow> File list \<Rightarrow> string list \<Rightarrow> fs \<Rightarrow> bool \<times> string list \<times> fs \<times> event list" where
  "loopFiles S releaseName [] visited fs = (True, visited, fs, [])"
| "loopFiles S releaseName (download # rest) visited fs =
     (case processFile (withStore S visited) releaseName download fs of
        (False, fs1, evs) \<Rightarrow> (False, visitedIn evs @ visited, fs1, evs)
      | (True, fs1, evs) \<Rightarrow>
          (let (ok, visited2, fs2, evs2) =
                 loopFiles S releaseName rest (visitedIn evs @ visited) fs1
           in (ok, visited2, fs2, evs @ evs2)))"

definition processRelease ::
    "sys \<Rightarrow> Release \<Rightarrow> string list \<Rightarrow> fs \<Rightarrow> bool \<times> string list \<times> fs \<times> event list" where
  "processRelease S release visited fs =
     (let releaseName = Release.Version release in
      if skipRelease releaseName
      then (True, visited, fs, [Print ErrOut (Skipping releaseName)])
      else
        (case ensureDirectory S fs releaseName of
           (False, fs1, evs) \<Rightarrow> (True, visited, fs1, evs)
         | (True, fs1, evs) \<Rightarrow>
             (let (ok, visited2, fs2, evs2) =
                    loopFiles S releaseName (Downloads release) visited fs1
              in (ok, visited2, fs2, evs @ evs2))))"

fun loopReleases ::
    "sys \<Rightarrow> Releases \<Rightarrow> string list \<Rightarrow> fs \<Rightarrow> bool \<times> string list \<times> fs \<times> event list" where
  "loopReleases S [] visited fs = (True, visited, fs, [])"
| "loopReleases S (release # rest) visited fs =
     (case processRelease S release visited fs of
        (False, visited1, fs1, evs) \<Rightarrow> (False, visited1, fs1, evs)
      | (True, visited1, fs1, evs) \<Rightarrow>
          (let (ok, visited2, fs2, evs2) = loopReleases S rest visited1 fs1
           in (ok, visited2, fs2, evs @ evs2)))"

text \<open>
  One run: the response callback of \<open>main\<close>, after the catalog has been fetched from
  \<open>dlURL\<close> and parsed.
\<close>

definition reconcile :: "sys \<Rightarrow> Releases \<Rightarrow> fs \<Rightarrow> bool \<times> fs \<times> event list" where
  "reconcile S releases fs =
     (case loopReleases S releases [dlURL] fs of
        (ok, visited, fs', evs) \<Rightarrow> (ok, fs', evs))"

section \<open>The earlier revision \<open>src/main.go\<close>\<close>

text \<open>
  \<open>src/main.go\<close> holds the same program before \<open>computeHash\<close>, \<open>writeHash\<close> and
  \<open>downloadFile\<close> were split off: \<open>checkHash\<close> hashes in place and answers \<open>false\<close> at
  once when the file cannot be opened or read, and the response callback is written
  inside the loop. Both are modelled here under names of their own.
\<close>

definition checkHashInline ::
    "sys \<Rightarrow> fs \<Rightarrow> string \<Rightarrow> File \<Rightarrow> bool option \<times> fs \<times> event list" where
  "checkHashInline S fs dir file =
     (let target = dlTarget S dir file in
      case osStat S fs target of
        NotExist \<Rightarrow> (Some False, fs, [Stat target])
      | OtherErr \<Rightarrow> (Some False, fs, [Stat target])
      | Ok info \<Rightarrow>
          if fst info \<noteq> sint (Size file)
          then (Some False, fs,
                [Stat target, Print ErrOut (SizeMismatch target (fst info) (Size file))])
          else
            (let hashFile = dlSHA target in
             case readFile fs hashFile of
               NotExist \<Rightarrow>
                 (case openAndRead fs target of
                    OpenFailed \<Rightarrow>
                      (Some False, fs,
                       [Stat target, ReadFile hashFile, Open target,
                        Print ErrOut (CouldNotRead target)])
                  | ReadFailed \<Rightarrow>
                      (Some False, fs,
                       [Stat target, ReadFile hashFile, Open target,
                        Print ErrOut (CouldNotHash target)])
                  | Contents c \<Rightarrow>
                      (let hashBytes = sha256 S c;
                           hash = hexEncode hashBytes
                       in case writeFile S fs hashFile hash of
                            None \<Rightarrow>
                              (Equal (SHA256Sum file) hashBytes, fs,
                               [Stat target, ReadFile hashFile, Open target,
                                WriteFile hashFile hash False,
                                Print ErrOut (CouldNotWriteHash hashFile)])
                          | Some fs' \<Rightarrow>
                              (Equal (SHA256Sum file) hashBytes, fs',
                               [Stat target, ReadFile hashFile, Open target,
                                WriteFile hashFile hash True])))
             | OtherErr \<Rightarrow>
                 (Some False, fs,
                  [Stat target, ReadFile hashFile, Print ErrOut (CouldNotRead hashFile)])
             | Ok hdata \<Rightarrow>
                 (case hexDecode hdata of
                    None \<Rightarrow>
                      (Some False, fs,
                       [Stat target, ReadFile hashFile,
                        Print ErrOut (MalformedHashFile hashFile)])
                  | Some hb \<Rightarrow>
                      (case Equal (SHA256Sum file) hb of
                         None \<Rightarrow> (None, fs, [Stat target, ReadFile hashFile])
                       | Some matches \<Rightarrow>
                           (Some matches, fs,
                            [Stat target, ReadFile hashFile] @
                            (if \<not> matches
                             then [Print ErrOut (ShaMismatch target (SHA256Sum file) hdata)]
                             else []))))))"

definition downloadInline :: "sys \<Rightarrow> fs \<Rightarrow> string \<Rightarrow> File \<Rightarrow> fs \<times> event list" where
  "downloadInline S fs release_name download =
     (let dl = fileDownloadFmt (Filename download) in
      case visit S dl of
        NoResponse \<Rightarrow>
          (fs, [Print ErrOut (Getting dl), Visit dl, Print ErrOut (CouldNotVisit dl)])
      | Response status body \<Rightarrow>
          if status = 200 then
            (let target = dlTarget S release_name download in
             case writeFile S fs target body of
               None \<Rightarrow>
                 (fs, [Print ErrOut (Getting dl), Visit dl, Print ErrOut (ResponseStatus status),
                       WriteFile target body False, Print ErrOut (CouldNotSave target)])
             | Some fs1 \<Rightarrow>
                 (let hashFile = dlSHA target in
                  case writeFile S fs1 hashFile (SHA256Sum download) of
                    None \<Rightarrow>
                      (fs1,
                       [Print ErrOut (Getting dl), Visit dl,
                        Print ErrOut (ResponseStatus status),
                        WriteFile target body True, Print StatusOut (Downloaded target),
                        WriteFile hashFile (SHA256Sum download) False,
                        Print ErrOut (CouldNotWriteHashFile hashFile)])
                  | Some fs2 \<Rightarrow>
                      (fs2,
                       [Print ErrOut (Getting dl), Visit dl,
                        Print ErrOut (ResponseStatus status),
                        WriteFile target body True, Print StatusOut (Downloaded target),
                        WriteFile hashFile (SHA256Sum download) True,
                        Print StatusOut (SavedHash hashFile)])))
          else (fs, [Print ErrOut (Getting dl), Visit dl, Print ErrOut (ResponseStatus status)]))"

section \<open>Predicates on traces and states\<close>

text \<open>Events that change the file system, and events that reach the network.\<close>

fun isWrite :: "event \<Rightarrow> bool" where
  "isWrite (WriteFile p d ok) = True"
| "isWrite (Mkdir p ok) = True"
| "isWrite e = False"

fun isVisit :: "event \<Rightarrow> bool" where
  "isVisit (Visit u) = True"
| "isVisit e = False"

text \<open>
  An artifact is settled in a state when its file is a regular file of the declared
  size and its sidecar is a readable regular file whose text decodes to the bytes that
  the expected hash decodes to.
\<close>

definition settled :: "sys \<Rightarrow> fs \<Rightarrow> string \<Rightarrow> File \<Rightarrow> bool" where
  "settled S fs dir file =
     (case fs (dlTarget S dir file) of
        Reg c r \<Rightarrow>
          int (length c) = sint (Size file) \<and>
          (case fs (dlSHA (dlTarget S dir file)) of
             Reg text r' \<Rightarrow>
               r' \<and> (case hexDecode text of
                       Some hb \<Rightarrow> hexDecode (SHA256Sum file) = Some hb
                     | None \<Rightarrow> False)
           | Missing \<Rightarrow> False
           | NoAccess \<Rightarrow> False
           | Dir \<Rightarrow> False)
      | Missing \<Rightarrow> False
      | NoAccess \<Rightarrow> False
      | Dir \<Rightarrow> False)"

definition allSettled :: "sys \<Rightarrow> fs \<Rightarrow> Releases \<Rightarrow> bool" where
  "allSettled S fs releases =
     list_all (\<lambda>release.
        skipRelease (Release.Version release) \<or>
        list_all (\<lambda>download.
           skipFile download \<or> settled S fs (Release.Version release) download)
          (Downloads release))
       releases"

text \<open>
  The paths that a run over a catalog may touch: the directory of each release that is
  not skipped, and the file and sidecar of each of its artifacts that is not skipped.
\<close>

definition artifactPaths :: "sys \<Rightarrow> string \<Rightarrow> File \<Rightarrow> path list" where
  "artifactPaths S dir d = [dlTarget S dir d, dlSHA (dlTarget S dir d)]"

definition releasePaths :: "sys \<Rightarrow> Release \<Rightarrow> path list" where
  "releasePaths S r =
     Release.Version r #
     concat (map (artifactPaths S (Release.Version r)) (filter (\<lambda>d. \<not> skipFile d) (Downloads r)))"

definition catalogPaths :: "sys \<Rightarrow> Releases \<Rightarrow> path list" where
  "catalogPaths S rs =
     concat (map (releasePaths S) (filter (\<lambda>r. \<not> skipRelease (Release.Version r)) rs))"

text \<open>
  \<open>forArtifacts rs P\<close>: the property \<open>P\<close> holds of every artifact that is not skipped, in
  every release that is not skipped (given the name of the release and the artifact).
\<close>

definition forArtifacts :: "Releases \<Rightarrow> (string \<Rightarrow> File \<Rightarrow> bool) \<Rightarrow> bool" where
  "forArtifacts rs P =
     list_all (\<lambda>release.
        skipRelease (Release.Version release) \<or>
        list_all (\<lambda>download. skipFile download \<or> P (Release.Version release) download)
          (Downloads release))
       rs"

text \<open>What a trace wrote to a path: the contents of the successful writes, in order.\<close>

fun writesTo :: "path \<Rightarrow> event list \<Rightarrow> string list" where
  "writesTo p [] = []"
| "writesTo p (WriteFile q content ok # evs) =
     (if q = p \<and> ok then content # writesTo p evs else writesTo p evs)"
| "writesTo p (e # evs) = writesTo p evs"

text \<open>
  A node that exists as a regular file and cannot be read.
\<close>

fun unreadable :: "node \<Rightarrow> bool" where
  "unreadable (Reg c r) = (\<not> r)"
| "unreadable n = False"

text \<open>
  What a run wrote for an artifact, read off its trace \<open>evs\<close> and the state \<open>fs\<close> it
  left: the file and the sidecar were each written at least once, every content written
  to the file has the declared size, and the sidecar is not left unreadable.
\<close>

definition wroteBoth :: "sys \<Rightarrow> event list \<Rightarrow> fs \<Rightarrow> string \<Rightarrow> File \<Rightarrow> bool" where
  "wroteBoth S evs fs dir d =
     (writesTo (dlTarget S dir d) evs \<noteq> [] \<and> writesTo (dlSHA (dlTarget S dir d)) evs \<noteq> []
      \<and> list_all (\<lambda>body. int (length body) = sint (Size d)) (writesTo (dlTarget S dir d) evs)
      \<and> \<not> unreadable (fs (dlSHA (dlTarget S dir d))))"

text \<open>
  If a trace wrote both paths of an artifact, the state holds a content that was
  written to the file, and the expected hash text in the sidecar.
\<close>

definition holdsWritten :: "sys \<Rightarrow> event list \<Rightarrow> fs \<Rightarrow> string \<Rightarrow> File \<Rightarrow> bool" where
  "holdsWritten S evs fs dir d =
     (writesTo (dlTarget S dir d) evs \<noteq> [] \<and> writesTo (dlSHA (dlTarget S dir d)) evs \<noteq> [] \<longrightarrow>
      (\<exists>body r r'. body \<in> set (writesTo (dlTarget S dir d) evs)
         \<and> fs (dlTarget S dir d) = Reg body r
         \<and> fs (dlSHA (dlTarget S dir d)) = Reg (SHA256Sum d) r'))"

text \<open>
  The URLs that a run over a catalog may fetch, and a network that delivers an artifact:
  status 200 with a body of the declared size.
\<close>

definition releaseURLs :: "Release \<Rightarrow> string list" where
  "releaseURLs r =
     map (\<lambda>d. fileDownloadFmt (Filename d)) (filter (\<lambda>d. \<not> skipFile d) (Downloads r))"

definition catalogURLs :: "Releases \<Rightarrow> string list" where
  "catalogURLs rs =
     concat (map releaseURLs (filter (\<lambda>r. \<not> skipRelease (Release.Version r)) rs))"

definition delivered :: "sys \<Rightarrow> File \<Rightarrow> bool" where
  "delivered S d =
     (case visit S (fileDownloadFmt (Filename d)) of
        NoResponse \<Rightarrow> False
      | Response status body \<Rightarrow> status = 200 \<and> int (length body) = sint (Size d))"

section \<open>A concrete system for evaluation\<close>

text \<open>
  Concrete instances are evaluated in a system where every path is writable,
  \<open>path.Join\<close> is applied to clean, non-empty elements only (where it puts a slash
  between them), and a stand-in digest replaces SHA-256: the properties below hold for
  every digest function, and the instances never depend on which one it is.
\<close>

definition slashJoin :: "string \<Rightarrow> string \<Rightarrow> string" where
  "slashJoin dir name = dir @ ''/'' @ name"

definition lengthDigest :: "string \<Rightarrow> bytes" where
  "lengthDigest c = [word_of_nat (length c)]"

definition testSys :: "outcome \<Rightarrow> sys" where
  "testSys response =
     \<lparr>sha256 = lengthDigest, pathJoin = slashJoin, visit = (\<lambda>url. response),
      writable = (\<lambda>p. True), dirSize = 4096\<rparr>"

definition emptyFs :: fs where
  "emptyFs = (\<lambda>p. Missing)"

definition art :: "string \<Rightarrow> Hash \<Rightarrow> 64 word \<Rightarrow> File" where
  "art name h n =
     \<lparr>Filename = name, OS = ''linux'', Architecture = ''amd64'', Version = ''go1.21.0'',
      SHA256Sum = h, Size = n, Kind = ''archive''\<rparr>"

definition rel :: "File list \<Rightarrow> Release" where
  "rel files = \<lparr>Version = ''go1.21.0'', IsStable = True, Downloads = files\<rparr>"

text \<open>
  The one artifact of the instances, and a state holding the directory of its release,
  its file and its sidecar.
\<close>

definition fsWith :: "node \<Rightarrow> node \<Rightarrow> fs" where
  "fsWith file sidecar =
     emptyFs(''go1.21.0'' := Dir, ''go1.21.0/a.tar.gz'' := file,
             ''go1.21.0/a.tar.gz.sha'' := sidecar)"

text \<open>
  A catalog of one release with that artifact, and the state after a run that started
  from nothing and downloaded it with the given body.
\<close>

definition catalog1 :: Releases where
  "catalog1 = [rel [art ''a.tar.gz'' ''ab'' 3]]"

definition fsAfter :: "string \<Rightarrow> fs" where
  "fsAfter body =
     emptyFs(''go1.21.0'' := Dir, ''go1.21.0/a.tar.gz'' := Reg body True,
             ''go1.21.0/a.tar.gz.sha'' := Reg ''ab'' True)"

text \<open>
  Further catalogs: one whose expected hash is not hexadecimal, one whose second artifact
  is stored at the path of the first one's sidecar, and one that lists an artifact
  twice.
\<close>

definition catalogMalformed :: Releases where
  "catalogMalformed = [rel [art ''a.tar.gz'' ''zz'' 3]]"

definition catalogShared :: Releases where
  "catalogShared = [rel [art ''a.tar.gz'' ''ab'' 2, art ''a.tar.gz.sha'' ''cd'' 2]]"

definition catalogTwice :: Releases where
  "catalogTwice = [rel [art ''a.tar.gz'' ''ab'' 3, art ''a.tar.gz'' ''ab'' 3]]"

section \<open>Hexadecimal text: decoding inverts encoding\<close>

lemma nibble_high: "unat (drop_bit 4 (v::byte)) < 16"
proof -
  have "unat v < 2 ^ LENGTH(8)" by (rule unsigned_less)
  then have "unat v < 256" by simp
  then show ?thesis by (simp add: drop_bit_eq_div unat_div)
qed

lemma nibble_low: "unat ((v::byte) AND 0x0f) < 16"
proof -
  have "unat (v AND 0x0f) \<le> unat (0x0f :: byte)"
    by (rule word_and_le1 [THEN word_le_nat_alt [THEN iffD1]])
  then show ?thesis by simp
qed

lemma fromHexChar_hextable_all:
  "list_all (\<lambda>n. fromHexChar (hextable ! n) = of_nat n) [0..<16]"
  by code_simp

lemma fromHexChar_hextable:
  assumes "n < 16"
  shows "fromHexChar (hextable ! n) = of_nat n"
proof -
  have "n \<in> set [0..<16]" using assms by simp
  with fromHexChar_hextable_all show ?thesis
    unfolding list_all_iff by blast
qed

lemma nibbles_join: "push_bit 4 (drop_bit 4 (v::byte)) OR (v AND 0x0f) = v"
proof -
  have m: "(0x0f::byte) = mask 4" by (simp add: mask_eq_exp_minus_1)
  show ?thesis unfolding m by (rule bit_word_eqI) (auto simp: bit_simps)
qed

lemma hexDecode_hexEncode: "hexDecode (hexEncode bs) = Some bs"
proof (induction bs)
  case Nil
  show ?case by simp
next
  case (Cons v vs)
  have hi: "fromHexChar (hextable ! unat (drop_bit 4 v)) = drop_bit 4 v"
    using fromHexChar_hextable[OF nibble_high[of v]] by simp
  have lo: "fromHexChar (hextable ! unat (v AND 0x0f)) = v AND 0x0f"
    using fromHexChar_hextable[OF nibble_low[of v]] by simp
  have hi_le: "\<not> drop_bit 4 v > (0x0f::byte)"
    using nibble_high[of v] by (simp add: word_less_nat_alt)
  have lo_le: "\<not> (v AND 0x0f) > (0x0f::byte)"
    using nibble_low[of v] by (simp add: word_less_nat_alt)
  show ?case
    using Cons.IH hi lo hi_le lo_le nibbles_join[of v] by simp
qed

section \<open>The comparison loop\<close>

lemma equalLoop_drop:
  "length self = length other \<Longrightarrow>
   equalLoop self other ix = Some (drop ix self = drop ix other)"
proof (induction self other ix rule: equalLoop.induct)
  case (1 self other ix)
  show ?case
  proof (cases "ix < length self")
    case True
    with "1.prems" have lt: "ix < length other" by simp
    have d1: "drop ix self = self ! ix # drop (Suc ix) self"
      using True by (simp add: Cons_nth_drop_Suc)
    have d2: "drop ix other = other ! ix # drop (Suc ix) other"
      using lt by (simp add: Cons_nth_drop_Suc)
    show ?thesis
    proof (cases "self ! ix = other ! ix")
      case True
      with "1.IH" \<open>ix < length self\<close> lt "1.prems" d1 d2 show ?thesis
        by (subst equalLoop.simps) simp
    next
      case False
      with \<open>ix < length self\<close> lt d1 d2 show ?thesis
        by (subst equalLoop.simps) simp
    qed
  next
    case False
    with "1.prems" show ?thesis
      by (subst equalLoop.simps) simp
  qed
qed

lemma Equal_decodes: "Equal h other = Some (hexDecode h = Some other)"
  by (auto simp: Equal_def Bytes_def equalLoop_drop split: option.splits)

lemma Equal_not_None: "Equal h b \<noteq> None"
  by (simp add: Equal_decodes)

text \<open>
  Claim C2. \<open>Hash.Equal\<close> decodes the hash text first. It never panics, whatever the
  text: the result is never \<open>None\<close>. It answers not-equal when the text does not decode
  and when the decoded length differs from the length of the other bytes, and it
  answers equal exactly when the text decodes to those very bytes.
\<close>

theorem C2_Hash_Equal:
  "Equal h b \<noteq> None
   \<and> (Bytes h = None \<longrightarrow> Equal h b = Some False)
   \<and> (\<forall>self. Bytes h = Some self \<and> length self \<noteq> length b \<longrightarrow> Equal h b = Some False)
   \<and> (Equal h b = Some True \<longleftrightarrow> Bytes h = Some b)"
  by (auto simp: Equal_decodes Bytes_def)

theorem C2_Hash_Equal_witness:
  "Bytes ''0g'' = None \<and> Equal ''0g'' [0] = Some False
   \<and> Bytes ''00ff'' = Some [0, 255] \<and> Equal ''00ff'' [0] = Some False
   \<and> Equal ''00fF'' [0, 255] = Some True"
  using C2_Hash_Equal [of "''0g''" "[0]"] C2_Hash_Equal [of "''00ff''" "[0]"]
    C2_Hash_Equal [of "''00fF''" "[0, 255]"]
  by (simp add: Bytes_def fromHexChar_def reverseHexTable_def)


section \<open>Skip policy\<close>

lemma hasPrefix_iff: "hasPrefix s sub \<longleftrightarrow> (\<exists>ss. s = sub @ ss)"
  by (induction s sub rule: hasPrefix.induct) auto

lemma contains_iff: "contains s sub \<longleftrightarrow> (\<exists>ps ss. s = ps @ sub @ ss)"
proof (induction s)
  case Nil
  show ?case by (auto simp: hasPrefix_iff)
next
  case (Cons x xs)
  show ?case
  proof
    assume "contains (x # xs) sub"
    then consider "hasPrefix (x # xs) sub" | "contains xs sub" by auto
    then show "\<exists>ps ss. x # xs = ps @ sub @ ss"
    proof cases
      case 1
      then obtain ss where "x # xs = sub @ ss" by (auto simp: hasPrefix_iff)
      then have "x # xs = [] @ sub @ ss" by simp
      then show ?thesis by blast
    next
      case 2
      with Cons.IH obtain ps ss where "xs = ps @ sub @ ss" by auto
      then have "x # xs = (x # ps) @ sub @ ss" by simp
      then show ?thesis by blast
    qed
  next
    assume "\<exists>ps ss. x # xs = ps @ sub @ ss"
    then obtain ps ss where e: "x # xs = ps @ sub @ ss" by auto
    show "contains (x # xs) sub"
    proof (cases ps)
      case Nil
      with e have "hasPrefix (x # xs) sub" by (auto simp: hasPrefix_iff)
      then show ?thesis by simp
    next
      case (Cons p ps')
      with e have "xs = ps' @ sub @ ss" by simp
      with Cons.IH have "contains xs sub" by blast
      then show ?thesis by simp
    qed
  qed
qed

lemma matchesAny_iff: "matchesAny vers version \<longleftrightarrow> version \<in> set vers"
  by (induction vers) auto

lemma containsAny_iff:
  "containsAny words version \<longleftrightarrow> (\<exists>w \<in> set words. \<exists>ps ss. version = ps @ w @ ss)"
  by (induction words) (auto simp: contains_iff)

text \<open>
  Claim C5. \<open>skipRelease\<close> answers skip exactly for a version that is an entry of
  \<open>skipVersions\<close> or that has an entry of \<open>skipWords\<close> as a contiguous substring, also
  where the marker occurs by coincidence as in \<open>1.2.0-rcdoc\<close>. It is a function of the
  version alone: it takes no state and returns none.
\<close>

theorem C5_skipRelease:
  "(skipRelease v \<longleftrightarrow>
      v \<in> set skipVersions \<or> (\<exists>w \<in> set skipWords. \<exists>ps ss. v = ps @ w @ ss))
   \<and> skipRelease ''1.2.0-rcdoc''"
proof
  show "skipRelease v \<longleftrightarrow>
      v \<in> set skipVersions \<or> (\<exists>w \<in> set skipWords. \<exists>ps ss. v = ps @ w @ ss)"
    by (simp add: skipRelease_def matchesAny_iff containsAny_iff)
  show "skipRelease ''1.2.0-rcdoc''"
    by (simp add: skipRelease_def skipVersions_def skipWords_def)
qed

theorem C5_skipRelease_witness:
  "skipRelease ''go1.2'' \<and> skipRelease ''go1.21rc2'' \<and> skipRelease ''go1.9beta1''
   \<and> \<not> skipRelease ''go1.21.0'' \<and> \<not> skipRelease ''go1.2.1''"
proof -
  have a: "''go1.21rc2'' = ''go1.21'' @ ''rc'' @ ''2''" by simp
  have b: "''go1.9beta1'' = ''go1.9'' @ ''beta'' @ ''1''" by simp
  have "skipRelease ''go1.2''"
    using C5_skipRelease [of "''go1.2''"] by (simp add: skipVersions_def)
  moreover have "skipRelease ''go1.21rc2''"
    using C5_skipRelease [of "''go1.21rc2''"] a unfolding skipWords_def by (metis list.set_intros)
  moreover have "skipRelease ''go1.9beta1''"
    using C5_skipRelease [of "''go1.9beta1''"] b unfolding skipWords_def by (metis list.set_intros(1))
  moreover have "\<not> skipRelease ''go1.21.0''"
    by (simp add: skipRelease_def skipVersions_def skipWords_def)
  moreover have "\<not> skipRelease ''go1.2.1''"
    by (simp add: skipRelease_def skipVersions_def skipWords_def)
  ultimately show ?thesis by simp
qed

text \<open>
  Claim C6. \<open>skipFile\<close> answers skip exactly when the declared size is zero or the
  expected hash is empty, and the loop then prints one line for the artifact and does
  nothing else: no system call of the verifier, no fetch, the file system unchanged.
\<close>

theorem C6_skipFile:
  "(skipFile A \<longleftrightarrow> Size A = 0 \<or> SHA256Sum A = [])
   \<and> (skipFile A \<longrightarrow>
        processFile S releaseName A fs =
          (True, fs, [Print ErrOut (SkippingFile releaseName (Filename A))]))"
  by (simp add: skipFile_def processFile_def)

theorem C6_skipFile_witness:
  "skipFile (art ''a.tar.gz'' ''ab'' 0) \<and> skipFile (art ''a.tar.gz'' [] 3)
   \<and> \<not> skipFile (art ''a.tar.gz'' ''ab'' 3)
   \<and> processFile (testSys (Response 200 ''xyz'')) ''go1.21.0'' (art ''a.tar.gz'' [] 3) emptyFs
       = (True, emptyFs, [Print ErrOut (SkippingFile ''go1.21.0'' ''a.tar.gz'')])"
  using C6_skipFile [of "art ''a.tar.gz'' ''ab'' 0"]
    C6_skipFile [of "art ''a.tar.gz'' [] 3" "testSys (Response 200 ''xyz'')" "''go1.21.0''" emptyFs]
    C6_skipFile [of "art ''a.tar.gz'' ''ab'' 3"]
  by (simp add: art_def)


section \<open>Evaluating the instances\<close>

lemma target_eval:
  "dlTarget (testSys r) ''go1.21.0'' (art ''a.tar.gz'' h n) = ''go1.21.0/a.tar.gz''"
  by (simp add: dlTarget_def testSys_def slashJoin_def art_def)

lemma sidecar_eval: "dlSHA ''go1.21.0/a.tar.gz'' = ''go1.21.0/a.tar.gz.sha''"
  by (simp add: dlSHA_def)

lemma fsWith_eval:
  "fsWith a b ''go1.21.0/a.tar.gz'' = a"
  "fsWith a b ''go1.21.0/a.tar.gz.sha'' = b"
  by (simp_all add: fsWith_def)

lemma art_eval:
  "Filename (art name h n) = name" "SHA256Sum (art name h n) = h" "Size (art name h n) = n"
  by (simp_all add: art_def)

lemma sys_eval:
  "sha256 (testSys r) = lengthDigest" "visit (testSys r) u = r" "writable (testSys r) p"
  by (simp_all add: testSys_def)

lemmas evals = target_eval sidecar_eval fsWith_eval art_eval sys_eval

lemma fsWith_written:
  "(fsWith a b)(''go1.21.0/a.tar.gz'' := c) = fsWith c b"
  "(fsWith a b)(''go1.21.0/a.tar.gz.sha'' := c) = fsWith a c"
  by (rule ext, simp add: fsWith_def)+

section \<open>The integrity verifier\<close>

lemma dlSHA_neq [simp]: "dlSHA t \<noteq> t" "t \<noteq> dlSHA t"
  by (auto simp: dlSHA_def)

lemma sint_nonneg_uint:
  fixes w :: "64 word"
  assumes "0 \<le> sint w"
  shows "sint w = uint w"
proof -
  have "sint w < 2 ^ (LENGTH(64) - 1)" by (rule sint_lt)
  then have "sint w < 2 ^ 64" by simp
  with assms have "take_bit 64 (sint w) = sint w"
    by (simp add: take_bit_int_eq_self)
  moreover have "uint w = take_bit LENGTH(64) (sint w)" by (rule uint_sint)
  ultimately show ?thesis by simp
qed

lemma osStat_nonneg: "osStat S fs p = Ok info \<Longrightarrow> 0 \<le> fst info"
  by (auto simp: osStat_def split: node.splits)

lemma size_differs:
  assumes "osStat S fs p = Ok info" and "fst info \<noteq> int (unat w)"
  shows "fst info \<noteq> sint (w :: 64 word)"
proof
  assume e: "fst info = sint w"
  with osStat_nonneg[OF assms(1)] have "0 \<le> sint w" by simp
  then have "sint w = uint w" by (rule sint_nonneg_uint)
  with e assms(2) show False by simp
qed

lemma osStat_upd_other: "q \<noteq> p \<Longrightarrow> osStat S (fs(q := x)) p = osStat S fs p"
  by (simp add: osStat_def)

text \<open>
  The declared size is compared as an \<open>int64\<close>. A stat size is never negative, so
  the comparison passes only for a declared size below \<open>2^63\<close> that is the stat size.
\<close>

lemma size_matches_iff:
  assumes "osStat S fs p = Ok info"
  shows "fst info = sint (w :: 64 word) \<longleftrightarrow> fst info = int (unat w) \<and> unat w < 2 ^ 63"
proof
  assume e: "fst info = sint w"
  with osStat_nonneg[OF assms] have "0 \<le> sint w" by simp
  then have u: "sint w = uint w" by (rule sint_nonneg_uint)
  have "sint w < 2 ^ (LENGTH(64) - 1)" by (rule sint_lt)
  with u have "int (unat w) < int (2 ^ 63)" by simp
  then have "unat w < 2 ^ 63" by (simp only: of_nat_less_iff)
  with e u show "fst info = int (unat w) \<and> unat w < 2 ^ 63" by simp
next
  assume a: "fst info = int (unat w) \<and> unat w < 2 ^ 63"
  then have "int (unat w) < int (2 ^ 63)" by (simp only: of_nat_less_iff)
  then have "uint w < 2 ^ 63" by simp
  moreover have "- (2 ^ 63) \<le> uint w"
  proof -
    have "- (2 ^ 63) \<le> (0::int)" by simp
    also have "0 \<le> uint w" by simp
    finally show ?thesis .
  qed
  ultimately have "signed_take_bit 63 (uint w) = uint w"
    by (rule signed_take_bit_int_eq_self[rotated])
  then have "sint w = uint w"
    by (simp add: sint_uint)
  with a show "fst info = sint w" by simp
qed

text \<open>
  Claim C3. When the target can be examined and its size is not the declared size,
  \<open>checkHash\<close> answers not satisfied after the one \<open>Stat\<close> call and the warning: the
  sidecar is not read, and the verdict is the same whatever the sidecar path holds.
\<close>

theorem C3_size_mismatch:
  assumes "osStat S fs (dlTarget S dir file) = Ok info"
    and "fst info \<noteq> int (unat (Size file))"
  shows "checkHash S fs dir file =
           (Some False, fs,
            [Stat (dlTarget S dir file),
             Print ErrOut (SizeMismatch (dlTarget S dir file) (fst info) (Size file))])
         \<and> fst (checkHash S (fs(dlSHA (dlTarget S dir file) := sidecar)) dir file) = Some False"
proof -
  have ne: "fst info \<noteq> sint (Size file)"
    using assms by (rule size_differs)
  have st: "osStat S (fs(dlSHA (dlTarget S dir file) := sidecar)) (dlTarget S dir file) = Ok info"
    using assms(1) by (simp add: osStat_upd_other)
  show ?thesis
    using ne assms(1) st by (simp add: checkHash_def Let_def)
qed

theorem C3_size_mismatch_witness:
  "osStat (testSys NoResponse) (fsWith (Reg ''xy'' True) (Reg ''ab'' True))
     (dlTarget (testSys NoResponse) ''go1.21.0'' (art ''a.tar.gz'' ''ab'' 3)) = Ok (2, False)
   \<and> fst (2::int, False) \<noteq> int (unat (Size (art ''a.tar.gz'' ''ab'' 3)))
   \<and> checkHash (testSys NoResponse) (fsWith (Reg ''xy'' True) (Reg ''ab'' True)) ''go1.21.0''
        (art ''a.tar.gz'' ''ab'' 3) =
       (Some False, fsWith (Reg ''xy'' True) (Reg ''ab'' True),
        [Stat ''go1.21.0/a.tar.gz'', Print ErrOut (SizeMismatch ''go1.21.0/a.tar.gz'' 2 3)])
   \<and> fst (checkHash (testSys NoResponse)
            ((fsWith (Reg ''xy'' True) (Reg ''ab'' True))(''go1.21.0/a.tar.gz.sha'' := Missing))
            ''go1.21.0'' (art ''a.tar.gz'' ''ab'' 3)) = Some False"
proof -
  have st: "osStat (testSys NoResponse) (fsWith (Reg ''xy'' True) (Reg ''ab'' True))
     (dlTarget (testSys NoResponse) ''go1.21.0'' (art ''a.tar.gz'' ''ab'' 3)) = Ok (2, False)"
    by (simp add: osStat_def evals)
  have ne: "fst (2::int, False) \<noteq> int (unat (Size (art ''a.tar.gz'' ''ab'' 3)))"
    by (simp add: evals)
  show ?thesis
    using C3_size_mismatch [OF st ne, of Missing] st ne by (simp add: evals)
qed

lemma checkHash_no_panic: "fst (checkHash S fs dir file) \<noteq> None"
  by (auto simp: checkHash_def Let_def Equal_decodes split: res.splits option.splits prod.splits)

lemma processFile_continues: "fst (processFile S dir file fs)"
  using checkHash_no_panic [of S fs dir "file"]
  by (auto simp: processFile_def split: prod.splits option.splits bool.splits)

text \<open>
  Claim C7. When the target has the declared size and the sidecar is read but its text
  does not decode, \<open>checkHash\<close> answers not satisfied (a verdict, not a panic), prints
  the malformed-hash line, makes no write and leaves the file system as it was, and the
  loop goes on after this artifact.
\<close>

theorem C7_malformed_sidecar:
  assumes "osStat S fs (dlTarget S dir file) = Ok info"
    and "fst info = sint (Size file)"
    and "readFile fs (dlSHA (dlTarget S dir file)) = Ok text"
    and "hexDecode text = None"
  shows "checkHash S fs dir file =
           (Some False, fs,
            [Stat (dlTarget S dir file), ReadFile (dlSHA (dlTarget S dir file)),
             Print ErrOut (MalformedHashFile (dlSHA (dlTarget S dir file)))])
         \<and> fst (processFile S dir file fs)"
  using assms by (simp add: checkHash_def Let_def processFile_continues)

theorem C7_malformed_sidecar_witness:
  "osStat (testSys NoResponse) (fsWith (Reg ''xyz'' True) (Reg ''zz'' True))
      (dlTarget (testSys NoResponse) ''go1.21.0'' (art ''a.tar.gz'' ''ab'' 3)) = Ok (3, False)
   \<and> fst (3::int, False) = sint (Size (art ''a.tar.gz'' ''ab'' 3))
   \<and> readFile (fsWith (Reg ''xyz'' True) (Reg ''zz'' True))
        (dlSHA (dlTarget (testSys NoResponse) ''go1.21.0'' (art ''a.tar.gz'' ''ab'' 3))) = Ok ''zz''
   \<and> hexDecode ''zz'' = None
   \<and> checkHash (testSys NoResponse) (fsWith (Reg ''xyz'' True) (Reg ''zz'' True)) ''go1.21.0''
        (art ''a.tar.gz'' ''ab'' 3) =
       (Some False, fsWith (Reg ''xyz'' True) (Reg ''zz'' True),
        [Stat ''go1.21.0/a.tar.gz'', ReadFile ''go1.21.0/a.tar.gz.sha'',
         Print ErrOut (MalformedHashFile ''go1.21.0/a.tar.gz.sha'')])"
proof -
  have st: "osStat (testSys NoResponse) (fsWith (Reg ''xyz'' True) (Reg ''zz'' True))
      (dlTarget (testSys NoResponse) ''go1.21.0'' (art ''a.tar.gz'' ''ab'' 3)) = Ok (3, False)"
    by (simp add: osStat_def evals)
  have sz: "fst (3::int, False) = sint (Size (art ''a.tar.gz'' ''ab'' 3))"
    by (simp add: evals)
  have rd: "readFile (fsWith (Reg ''xyz'' True) (Reg ''zz'' True))
        (dlSHA (dlTarget (testSys NoResponse) ''go1.21.0'' (art ''a.tar.gz'' ''ab'' 3))) = Ok ''zz''"
    by (simp add: readFile_def evals)
  have hx: "hexDecode ''zz'' = None"
    by (simp add: fromHexChar_def reverseHexTable_def)
  show ?thesis
    using C7_malformed_sidecar [OF st sz rd hx] st sz rd hx by (simp add: evals)
qed

lemma computeHash_writes:
  "computeHash S fs target = (hb, fs', evs) \<Longrightarrow> e \<in> set evs \<Longrightarrow> isWrite e \<Longrightarrow>
   (\<exists>d ok. e = WriteFile (dlSHA target) d ok)"
  by (fastforce simp: computeHash_def writeHash_def Let_def split: opened.splits option.splits)

text \<open>
  Claim C10. When the target has the declared size and the sidecar is read, \<open>checkHash\<close>
  leaves every path as it was and makes no write call, whatever the verdict. Any write
  call that \<open>checkHash\<close> ever makes is a write of the sidecar on the path where the
  sidecar does not exist.
\<close>

theorem C10_sidecar_present_no_writes:
  "(osStat S fs (dlTarget S dir file) = Ok info \<and> fst info = sint (Size file)
      \<and> readFile fs (dlSHA (dlTarget S dir file)) = Ok text
    \<longrightarrow> fst (snd (checkHash S fs dir file)) = fs
        \<and> (\<forall>e \<in> set (snd (snd (checkHash S fs dir file))). \<not> isWrite e))
   \<and> (\<forall>e \<in> set (snd (snd (checkHash S fs dir file))). isWrite e \<longrightarrow>
         readFile fs (dlSHA (dlTarget S dir file)) = NotExist
         \<and> (\<exists>d ok. e = WriteFile (dlSHA (dlTarget S dir file)) d ok))"
proof (intro conjI impI ballI)
  assume a: "osStat S fs (dlTarget S dir file) = Ok info \<and> fst info = sint (Size file)
      \<and> readFile fs (dlSHA (dlTarget S dir file)) = Ok text"
  then show "fst (snd (checkHash S fs dir file)) = fs"
    by (auto simp: checkHash_def Let_def split: option.splits)
  fix e assume "e \<in> set (snd (snd (checkHash S fs dir file)))"
  with a show "\<not> isWrite e"
    by (auto simp: checkHash_def Let_def split: option.splits if_splits)
next
  fix e assume e: "e \<in> set (snd (snd (checkHash S fs dir file)))" and w: "isWrite e"
  then show "readFile fs (dlSHA (dlTarget S dir file)) = NotExist"
    by (auto simp: checkHash_def Let_def split: res.splits option.splits if_splits prod.splits)
  from e w show "\<exists>d ok. e = WriteFile (dlSHA (dlTarget S dir file)) d ok"
    by (auto simp: checkHash_def Let_def  split: res.splits option.splits if_splits prod.splits
        dest: computeHash_writes)
qed

theorem C10_sidecar_present_no_writes_witness:
  "osStat (testSys NoResponse) (fsWith (Reg ''xyz'' True) (Reg ''ab'' True))
      (dlTarget (testSys NoResponse) ''go1.21.0'' (art ''a.tar.gz'' ''ab'' 3)) = Ok (3, False)
   \<and> fst (3::int, False) = sint (Size (art ''a.tar.gz'' ''ab'' 3))
   \<and> readFile (fsWith (Reg ''xyz'' True) (Reg ''ab'' True))
        (dlSHA (dlTarget (testSys NoResponse) ''go1.21.0'' (art ''a.tar.gz'' ''ab'' 3))) = Ok ''ab''
   \<and> checkHash (testSys NoResponse) (fsWith (Reg ''xyz'' True) (Reg ''ab'' True)) ''go1.21.0''
        (art ''a.tar.gz'' ''ab'' 3) =
       (Some True, fsWith (Reg ''xyz'' True) (Reg ''ab'' True),
        [Stat ''go1.21.0/a.tar.gz'', ReadFile ''go1.21.0/a.tar.gz.sha''])
   \<and> WriteFile ''go1.21.0/a.tar.gz.sha'' ''03'' True
        \<in> set (snd (snd (checkHash (testSys NoResponse) (fsWith (Reg ''xyz'' True) Missing)
                   ''go1.21.0'' (art ''a.tar.gz'' ''ab'' 3))))
   \<and> readFile (fsWith (Reg ''xyz'' True) Missing)
        (dlSHA (dlTarget (testSys NoResponse) ''go1.21.0'' (art ''a.tar.gz'' ''ab'' 3))) = NotExist"
proof -
  have st: "osStat (testSys NoResponse) (fsWith (Reg ''xyz'' True) (Reg ''ab'' True))
      (dlTarget (testSys NoResponse) ''go1.21.0'' (art ''a.tar.gz'' ''ab'' 3)) = Ok (3, False)"
    by (simp add: osStat_def evals)
  have sz: "fst (3::int, False) = sint (Size (art ''a.tar.gz'' ''ab'' 3))"
    by (simp add: evals)
  have rd: "readFile (fsWith (Reg ''xyz'' True) (Reg ''ab'' True))
        (dlSHA (dlTarget (testSys NoResponse) ''go1.21.0'' (art ''a.tar.gz'' ''ab'' 3))) = Ok ''ab''"
    by (simp add: readFile_def evals)
  have ch: "checkHash (testSys NoResponse) (fsWith (Reg ''xyz'' True) (Reg ''ab'' True)) ''go1.21.0''
        (art ''a.tar.gz'' ''ab'' 3) =
       (Some True, fsWith (Reg ''xyz'' True) (Reg ''ab'' True),
        [Stat ''go1.21.0/a.tar.gz'', ReadFile ''go1.21.0/a.tar.gz.sha''])"
    by (simp add: checkHash_def Let_def osStat_def readFile_def evals fromHexChar_def reverseHexTable_def Equal_decodes)
  have ch2: "checkHash (testSys NoResponse) (fsWith (Reg ''xyz'' True) Missing) ''go1.21.0''
        (art ''a.tar.gz'' ''ab'' 3) =
       (Some False, fsWith (Reg ''xyz'' True) (Reg ''03'' True),
        [Stat ''go1.21.0/a.tar.gz'', ReadFile ''go1.21.0/a.tar.gz.sha'',
         Open ''go1.21.0/a.tar.gz'', WriteFile ''go1.21.0/a.tar.gz.sha'' ''03'' True])"
    by (simp add: checkHash_def Let_def osStat_def readFile_def evals fromHexChar_def reverseHexTable_def Equal_decodes
        computeHash_def openAndRead_def writeHash_def writeFile_def lengthDigest_def
        hextable_def fsWith_def)
  have mem: "WriteFile ''go1.21.0/a.tar.gz.sha'' ''03'' True
        \<in> set (snd (snd (checkHash (testSys NoResponse) (fsWith (Reg ''xyz'' True) Missing)
                   ''go1.21.0'' (art ''a.tar.gz'' ''ab'' 3))))"
    unfolding ch2 by simp
  have "isWrite (WriteFile ''go1.21.0/a.tar.gz.sha'' ''03'' True)" by simp
  with mem C10_sidecar_present_no_writes
         [of "testSys NoResponse" "fsWith (Reg ''xyz'' True) Missing" "''go1.21.0''"
             "art ''a.tar.gz'' ''ab'' 3"]
  have ne: "readFile (fsWith (Reg ''xyz'' True) Missing)
        (dlSHA (dlTarget (testSys NoResponse) ''go1.21.0'' (art ''a.tar.gz'' ''ab'' 3))) = NotExist"
    by blast
  from C10_sidecar_present_no_writes
         [of "testSys NoResponse" "fsWith (Reg ''xyz'' True) (Reg ''ab'' True)" "''go1.21.0''"
             "art ''a.tar.gz'' ''ab'' 3" "(3, False)" "''ab''"] st sz rd
  have "fst (snd (checkHash (testSys NoResponse) (fsWith (Reg ''xyz'' True) (Reg ''ab'' True))
                ''go1.21.0'' (art ''a.tar.gz'' ''ab'' 3)))
          = fsWith (Reg ''xyz'' True) (Reg ''ab'' True)"
    by blast
  with st sz rd ch mem ne show ?thesis by blast
qed

text \<open>
  Claim C8, as amended. When the target is a readable regular file of the declared size
  and the sidecar does not exist, \<open>checkHash\<close> hashes the whole content, tries to write
  the digest in hexadecimal as the new sidecar, and answers satisfied exactly when the
  expected hash decodes to the digest. Whether paths are writable does not change the
  verdict.
\<close>

theorem C8_sidecar_absent:
  assumes "fs (dlTarget S dir file) = Reg c True"
    and "int (length c) = sint (Size file)"
    and "fs (dlSHA (dlTarget S dir file)) = Missing"
  shows "checkHash S fs dir file =
           (Some (Bytes (SHA256Sum file) = Some (sha256 S c)),
            (if writable S (dlSHA (dlTarget S dir file))
             then fs(dlSHA (dlTarget S dir file) := Reg (hexEncode (sha256 S c)) True)
             else fs),
            [Stat (dlTarget S dir file), ReadFile (dlSHA (dlTarget S dir file)),
             Open (dlTarget S dir file),
             WriteFile (dlSHA (dlTarget S dir file)) (hexEncode (sha256 S c))
               (writable S (dlSHA (dlTarget S dir file)))] @
            (if writable S (dlSHA (dlTarget S dir file)) then []
             else [Print ErrOut (CouldNotWriteHash (dlSHA (dlTarget S dir file)))]))
         \<and> fst (checkHash (S\<lparr>writable := w\<rparr>) fs dir file) = fst (checkHash S fs dir file)"
proof -
  have t: "dlTarget (S\<lparr>writable := w\<rparr>) dir file = dlTarget S dir file"
    by (simp add: dlTarget_def)
  have st: "osStat S' fs (dlTarget S dir file) = Ok (int (length c), False)" for S'
    using assms(1) by (simp add: osStat_def)
  have rd: "readFile fs (dlSHA (dlTarget S dir file)) = NotExist"
    using assms(3) by (simp add: readFile_def)
  have op: "openAndRead fs (dlTarget S dir file) = Contents c"
    using assms(1) by (simp add: openAndRead_def)
  have v: "fst (checkHash S' fs dir file) = Some (Bytes (SHA256Sum file) = Some (sha256 S' c))"
    if "dlTarget S' dir file = dlTarget S dir file" for S'
    using that st[of S'] rd op assms(2)
    by (simp add: checkHash_def Let_def computeHash_def writeHash_def Equal_decodes Bytes_def
        split: option.splits prod.splits)
  have "checkHash S fs dir file =
           (Some (Bytes (SHA256Sum file) = Some (sha256 S c)),
            (if writable S (dlSHA (dlTarget S dir file))
             then fs(dlSHA (dlTarget S dir file) := Reg (hexEncode (sha256 S c)) True)
             else fs),
            [Stat (dlTarget S dir file), ReadFile (dlSHA (dlTarget S dir file)),
             Open (dlTarget S dir file),
             WriteFile (dlSHA (dlTarget S dir file)) (hexEncode (sha256 S c))
               (writable S (dlSHA (dlTarget S dir file)))] @
            (if writable S (dlSHA (dlTarget S dir file)) then []
             else [Print ErrOut (CouldNotWriteHash (dlSHA (dlTarget S dir file)))]))"
    using st[of S] rd op assms(2,3)
    by (simp add: checkHash_def Let_def computeHash_def writeHash_def writeFile_def
        Equal_decodes Bytes_def)
  moreover have "fst (checkHash (S\<lparr>writable := w\<rparr>) fs dir file) = fst (checkHash S fs dir file)"
    using v[OF t] v[OF refl] by simp
  ultimately show ?thesis by simp
qed

theorem C8_sidecar_absent_witness:
  "fsWith (Reg ''xyz'' True) Missing
      (dlTarget (testSys NoResponse) ''go1.21.0'' (art ''a.tar.gz'' ''03'' 3)) = Reg ''xyz'' True
   \<and> int (length ''xyz'') = sint (Size (art ''a.tar.gz'' ''03'' 3))
   \<and> fsWith (Reg ''xyz'' True) Missing
        (dlSHA (dlTarget (testSys NoResponse) ''go1.21.0'' (art ''a.tar.gz'' ''03'' 3))) = Missing
   \<and> checkHash (testSys NoResponse) (fsWith (Reg ''xyz'' True) Missing) ''go1.21.0''
        (art ''a.tar.gz'' ''03'' 3) =
       (Some True, fsWith (Reg ''xyz'' True) (Reg ''03'' True),
        [Stat ''go1.21.0/a.tar.gz'', ReadFile ''go1.21.0/a.tar.gz.sha'',
         Open ''go1.21.0/a.tar.gz'', WriteFile ''go1.21.0/a.tar.gz.sha'' ''03'' True])
   \<and> fst (checkHash (testSys NoResponse\<lparr>writable := (\<lambda>p. False)\<rparr>)
             (fsWith (Reg ''xyz'' True) Missing) ''go1.21.0'' (art ''a.tar.gz'' ''03'' 3))
       = Some True"
proof -
  have a: "fsWith (Reg ''xyz'' True) Missing
      (dlTarget (testSys NoResponse) ''go1.21.0'' (art ''a.tar.gz'' ''03'' 3)) = Reg ''xyz'' True"
    by (simp add: evals)
  have b: "int (length ''xyz'') = sint (Size (art ''a.tar.gz'' ''03'' 3))"
    by (simp add: evals)
  have c: "fsWith (Reg ''xyz'' True) Missing
        (dlSHA (dlTarget (testSys NoResponse) ''go1.21.0'' (art ''a.tar.gz'' ''03'' 3))) = Missing"
    by (simp add: evals)
  have up: "(fsWith (Reg ''xyz'' True) Missing)(''go1.21.0/a.tar.gz.sha'' := Reg ''03'' True)
            = fsWith (Reg ''xyz'' True) (Reg ''03'' True)"
    by (simp add: fsWith_def)
  show ?thesis
    using C8_sidecar_absent [OF a b c, of "\<lambda>p. False"] a b c
    by (simp add: evals up lengthDigest_def hextable_def Bytes_def fromHexChar_def reverseHexTable_def)
qed

text \<open>
  Claim C8 as stated does not hold for a target that exists with the declared size but
  cannot be read: no digest is computed, no sidecar write is tried, and the verdict is
  not satisfied although the content's digest is the expected one.
\<close>

theorem C8_counterexample:
  "fsWith (Reg ''xyz'' False) Missing
      (dlTarget (testSys NoResponse) ''go1.21.0'' (art ''a.tar.gz'' ''03'' 3)) = Reg ''xyz'' False
   \<and> int (length ''xyz'') = sint (Size (art ''a.tar.gz'' ''03'' 3))
   \<and> fsWith (Reg ''xyz'' False) Missing
        (dlSHA (dlTarget (testSys NoResponse) ''go1.21.0'' (art ''a.tar.gz'' ''03'' 3))) = Missing
   \<and> Equal (SHA256Sum (art ''a.tar.gz'' ''03'' 3)) (sha256 (testSys NoResponse) ''xyz'') = Some True
   \<and> checkHash (testSys NoResponse) (fsWith (Reg ''xyz'' False) Missing) ''go1.21.0''
        (art ''a.tar.gz'' ''03'' 3) =
       (Some False, fsWith (Reg ''xyz'' False) Missing,
        [Stat ''go1.21.0/a.tar.gz'', ReadFile ''go1.21.0/a.tar.gz.sha'',
         Open ''go1.21.0/a.tar.gz'', Print ErrOut (CouldNotRead ''go1.21.0/a.tar.gz'')])"
  by (simp add: checkHash_def Let_def osStat_def readFile_def evals fromHexChar_def reverseHexTable_def Equal_decodes
        computeHash_def openAndRead_def lengthDigest_def)

section \<open>The two revisions agree\<close>

text \<open>
  The verifier of \<open>src/main.go\<close> and the later one give the same verdict, state and
  trace for every artifact with a non-empty expected hash, which is every artifact that
  the loop passes to them; the two response callbacks leave the same state and make the
  same write calls.
\<close>

lemma hexDecode_empty: "hexDecode h = Some [] \<longleftrightarrow> h = []"
  by (induction h rule: hexDecode.induct) (auto split: option.splits)

lemma Equal_nil: "h \<noteq> [] \<Longrightarrow> Equal h [] = Some False"
  by (simp add: Equal_decodes hexDecode_empty)

lemma checkHashInline_agrees:
  assumes "SHA256Sum file \<noteq> []"
  shows "checkHashInline S fs dir file = checkHash S fs dir file"
  using assms
  by (auto simp: checkHashInline_def checkHash_def Let_def computeHash_def writeHash_def
      Equal_nil split: res.splits opened.splits option.splits)

lemma downloadInline_agrees:
  "fst (downloadInline S fs releaseName d) = fst (downloadFile S fs releaseName d)
   \<and> filter isWrite (snd (downloadInline S fs releaseName d))
       = filter isWrite (snd (downloadFile S fs releaseName d))"
  by (auto simp: downloadInline_def downloadFile_def Let_def writeHash_def
      split: outcome.splits option.splits)

text \<open>
  They differ for an empty expected hash when the file cannot be read: the later
  revision compares the empty decoded hash with the \<open>nil\<close> result of \<open>computeHash\<close>.
  The loop never asks: \<open>skipFile\<close> has removed such an artifact before.
\<close>

lemma checkHash_unreadable_empty_hash:
  assumes "fs (dlTarget S dir file) = Reg c False" and "int (length c) = sint (Size file)"
    and "fs (dlSHA (dlTarget S dir file)) = Missing" and "SHA256Sum file = []"
  shows "fst (checkHash S fs dir file) = Some True"
    and "fst (checkHashInline S fs dir file) = Some False"
  using assms
  by (simp_all add: checkHashInline_def checkHash_def Let_def computeHash_def osStat_def
      readFile_def openAndRead_def Equal_decodes)

section \<open>Fetch and persist\<close>

text \<open>
  Claim C4. After a response with status 200 whose body was written to the target, the
  next call writes the sidecar with the expected hash text of the catalog, whatever the
  body was; nothing is hashed. When that write succeeds the sidecar holds exactly that
  text.
\<close>

theorem C4_sidecar_from_catalog:
  assumes "visit S (fileDownloadFmt (Filename d)) = Response 200 body"
    and "writeFile S fs (dlTarget S releaseName d) body = Some fs1"
  shows "downloadFile S fs releaseName d =
           (case writeFile S fs1 (dlSHA (dlTarget S releaseName d)) (SHA256Sum d) of
              None \<Rightarrow>
                (fs1,
                 [Print ErrOut (Getting (fileDownloadFmt (Filename d))),
                  Visit (fileDownloadFmt (Filename d)),
                  WriteFile (dlTarget S releaseName d) body True,
                  Print StatusOut (Downloaded (dlTarget S releaseName d)),
                  WriteFile (dlSHA (dlTarget S releaseName d)) (SHA256Sum d) False,
                  Print ErrOut (CouldNotWriteHash (dlSHA (dlTarget S releaseName d)))])
            | Some fs2 \<Rightarrow>
                (fs2,
                 [Print ErrOut (Getting (fileDownloadFmt (Filename d))),
                  Visit (fileDownloadFmt (Filename d)),
                  WriteFile (dlTarget S releaseName d) body True,
                  Print StatusOut (Downloaded (dlTarget S releaseName d)),
                  WriteFile (dlSHA (dlTarget S releaseName d)) (SHA256Sum d) True,
                  Print StatusOut (SavedHash (dlSHA (dlTarget S releaseName d)))]))
         \<and> (\<forall>fs2. writeFile S fs1 (dlSHA (dlTarget S releaseName d)) (SHA256Sum d) = Some fs2 \<longrightarrow>
                (\<exists>r. fs2 (dlSHA (dlTarget S releaseName d)) = Reg (SHA256Sum d) r))"
proof
  show "downloadFile S fs releaseName d =
           (case writeFile S fs1 (dlSHA (dlTarget S releaseName d)) (SHA256Sum d) of
              None \<Rightarrow>
                (fs1,
                 [Print ErrOut (Getting (fileDownloadFmt (Filename d))),
                  Visit (fileDownloadFmt (Filename d)),
                  WriteFile (dlTarget S releaseName d) body True,
                  Print StatusOut (Downloaded (dlTarget S releaseName d)),
                  WriteFile (dlSHA (dlTarget S releaseName d)) (SHA256Sum d) False,
                  Print ErrOut (CouldNotWriteHash (dlSHA (dlTarget S releaseName d)))])
            | Some fs2 \<Rightarrow>
                (fs2,
                 [Print ErrOut (Getting (fileDownloadFmt (Filename d))),
                  Visit (fileDownloadFmt (Filename d)),
                  WriteFile (dlTarget S releaseName d) body True,
                  Print StatusOut (Downloaded (dlTarget S releaseName d)),
                  WriteFile (dlSHA (dlTarget S releaseName d)) (SHA256Sum d) True,
                  Print StatusOut (SavedHash (dlSHA (dlTarget S releaseName d)))]))"
    using assms by (simp add: downloadFile_def Let_def writeHash_def split: option.splits)
  show "\<forall>fs2. writeFile S fs1 (dlSHA (dlTarget S releaseName d)) (SHA256Sum d) = Some fs2 \<longrightarrow>
                (\<exists>r. fs2 (dlSHA (dlTarget S releaseName d)) = Reg (SHA256Sum d) r)"
    by (auto simp: writeFile_def split: if_splits node.splits)
qed

theorem C4_sidecar_from_catalog_witness:
  "visit (testSys (Response 200 ''xyz'')) (fileDownloadFmt (Filename (art ''a.tar.gz'' ''ab'' 3)))
     = Response 200 ''xyz''
   \<and> writeFile (testSys (Response 200 ''xyz'')) (fsWith Missing Missing)
        (dlTarget (testSys (Response 200 ''xyz'')) ''go1.21.0'' (art ''a.tar.gz'' ''ab'' 3)) ''xyz''
       = Some (fsWith (Reg ''xyz'' True) Missing)
   \<and> downloadFile (testSys (Response 200 ''xyz'')) (fsWith Missing Missing) ''go1.21.0''
        (art ''a.tar.gz'' ''ab'' 3)
       = (fsWith (Reg ''xyz'' True) (Reg ''ab'' True),
          [Print ErrOut (Getting ''https://golang.org/dl/a.tar.gz''),
           Visit ''https://golang.org/dl/a.tar.gz'',
           WriteFile ''go1.21.0/a.tar.gz'' ''xyz'' True,
           Print StatusOut (Downloaded ''go1.21.0/a.tar.gz''),
           WriteFile ''go1.21.0/a.tar.gz.sha'' ''ab'' True,
           Print StatusOut (SavedHash ''go1.21.0/a.tar.gz.sha'')])
   \<and> hexEncode (sha256 (testSys (Response 200 ''xyz'')) ''xyz'') = ''03''"
proof -
  have v: "visit (testSys (Response 200 ''xyz'')) (fileDownloadFmt (Filename (art ''a.tar.gz'' ''ab'' 3)))
     = Response 200 ''xyz''"
    by (simp add: evals)
  have w: "writeFile (testSys (Response 200 ''xyz'')) (fsWith Missing Missing)
        (dlTarget (testSys (Response 200 ''xyz'')) ''go1.21.0'' (art ''a.tar.gz'' ''ab'' 3)) ''xyz''
       = Some (fsWith (Reg ''xyz'' True) Missing)"
    by (simp add: writeFile_def evals fsWith_written)
  have w2: "writeFile (testSys (Response 200 ''xyz'')) (fsWith (Reg ''xyz'' True) Missing)
        ''go1.21.0/a.tar.gz.sha'' ''ab'' = Some (fsWith (Reg ''xyz'' True) (Reg ''ab'' True))"
    by (simp add: writeFile_def evals fsWith_written)
  have h: "hexEncode (sha256 (testSys (Response 200 ''xyz'')) ''xyz'') = ''03''"
    by (simp add: evals lengthDigest_def hextable_def)
  show ?thesis
    using C4_sidecar_from_catalog [OF v w] v w h
    by (simp add: evals w2 fileDownloadFmt_def)
qed

lemma checkHash_False_again:
  assumes "checkHash S fs dir file = (Some False, fs1, evs)"
  shows "fst (checkHash S fs1 dir file) = Some False"
proof (cases "fs1 = fs")
  case True
  with assms show ?thesis by simp
next
  case False
  let ?t = "dlTarget S dir file"
  from assms False obtain info c where
    st: "osStat S fs ?t = Ok info" and sz: "fst info = sint (Size file)"
    and rd: "readFile fs (dlSHA ?t) = NotExist"
    and op: "openAndRead fs ?t = Contents c"
    and wr: "writeFile S fs (dlSHA ?t) (hexEncode (sha256 S c)) = Some fs1"
    and v: "Equal (SHA256Sum file) (sha256 S c) = Some False"
    by (auto simp: checkHash_def Let_def computeHash_def writeHash_def
        split: res.splits if_splits option.splits opened.splits prod.splits)
  from rd have miss: "fs (dlSHA ?t) = Missing"
    by (auto simp: readFile_def split: node.splits if_splits)
  with wr have fs1: "fs1 = fs(dlSHA ?t := Reg (hexEncode (sha256 S c)) True)"
    by (auto simp: writeFile_def split: if_splits)
  have st1: "osStat S fs1 ?t = Ok info"
    using st by (simp add: fs1 osStat_upd_other)
  have rd1: "readFile fs1 (dlSHA ?t) = Ok (hexEncode (sha256 S c))"
    by (simp add: fs1 readFile_def)
  show ?thesis
    using st1 sz rd1 v by (simp add: checkHash_def Let_def hexDecode_hexEncode)
qed

text \<open>
  Claim C9. When the fetch does not deliver a response with status 200, \<open>downloadFile\<close>
  leaves the file system as it was and makes no write call. In the loop, the artifact
  that the verifier rejected is still rejected by the verifier in the resulting state,
  and the loop goes on to the next artifact.
\<close>

theorem C9_non_200:
  assumes "\<forall>body. visit S (fileDownloadFmt (Filename d)) \<noteq> Response 200 body"
  shows "fst (downloadFile S fs releaseName d) = fs
         \<and> (\<forall>e \<in> set (snd (downloadFile S fs releaseName d)). \<not> isWrite e)
         \<and> (\<not> skipFile d \<and> fst (checkHash S fs releaseName d) = Some False \<longrightarrow>
              fst (processFile S releaseName d fs)
              \<and> fst (snd (processFile S releaseName d fs)) = fst (snd (checkHash S fs releaseName d))
              \<and> fst (checkHash S (fst (snd (processFile S releaseName d fs))) releaseName d)
                  = Some False)"
proof -
  have dl: "fst (downloadFile S fs' releaseName d) = fs'" for fs'
    using assms by (auto simp: downloadFile_def Let_def split: outcome.splits)
  have nw: "\<forall>e \<in> set (snd (downloadFile S fs releaseName d)). \<not> isWrite e"
    using assms by (auto simp: downloadFile_def Let_def split: outcome.splits)
  have pf: "fst (processFile S releaseName d fs)
              \<and> fst (snd (processFile S releaseName d fs)) = fst (snd (checkHash S fs releaseName d))
              \<and> fst (checkHash S (fst (snd (processFile S releaseName d fs))) releaseName d)
                  = Some False"
    if ns: "\<not> skipFile d" and f: "fst (checkHash S fs releaseName d) = Some False"
  proof -
    obtain fs1 evs where ch: "checkHash S fs releaseName d = (Some False, fs1, evs)"
      using f by (cases "checkHash S fs releaseName d") auto
    have p: "fst (snd (processFile S releaseName d fs)) = fs1"
      using ns ch dl[of fs1] by (auto simp: processFile_def split: prod.splits)
    show ?thesis
      using p ch checkHash_False_again[OF ch] processFile_continues[of S releaseName d fs]
      by simp
  qed
  show ?thesis using dl nw pf by blast
qed

theorem C9_non_200_witness:
  "visit (testSys NoResponse) (fileDownloadFmt (Filename (art ''a.tar.gz'' ''ab'' 3)))
     = NoResponse
   \<and> \<not> skipFile (art ''a.tar.gz'' ''ab'' 3)
   \<and> fst (checkHash (testSys NoResponse) (fsWith Missing Missing) ''go1.21.0''
            (art ''a.tar.gz'' ''ab'' 3)) = Some False
   \<and> downloadFile (testSys NoResponse) (fsWith Missing Missing) ''go1.21.0''
        (art ''a.tar.gz'' ''ab'' 3)
       = (fsWith Missing Missing,
          [Print ErrOut (Getting ''https://golang.org/dl/a.tar.gz''),
           Visit ''https://golang.org/dl/a.tar.gz'',
           Print ErrOut (CouldNotVisit ''https://golang.org/dl/a.tar.gz'')])
   \<and> fst (processFile (testSys NoResponse) ''go1.21.0'' (art ''a.tar.gz'' ''ab'' 3)
            (fsWith Missing Missing))
   \<and> fst (snd (processFile (testSys NoResponse) ''go1.21.0'' (art ''a.tar.gz'' ''ab'' 3)
                 (fsWith Missing Missing))) = fsWith Missing Missing
   \<and> fst (downloadFile (testSys (Response 202 ''xyz'')) (fsWith Missing Missing) ''go1.21.0''
            (art ''a.tar.gz'' ''ab'' 3)) = fsWith Missing Missing"
proof -
  have v: "\<forall>body. visit (testSys NoResponse)
             (fileDownloadFmt (Filename (art ''a.tar.gz'' ''ab'' 3))) \<noteq> Response 200 body"
    by (simp add: evals)
  have v2: "\<forall>body. visit (testSys (Response 202 ''xyz''))
             (fileDownloadFmt (Filename (art ''a.tar.gz'' ''ab'' 3))) \<noteq> Response 200 body"
    by (simp add: evals)
  have ns: "\<not> skipFile (art ''a.tar.gz'' ''ab'' 3)"
    by (simp add: skipFile_def evals)
  have ch: "checkHash (testSys NoResponse) (fsWith Missing Missing) ''go1.21.0''
              (art ''a.tar.gz'' ''ab'' 3)
            = (Some False, fsWith Missing Missing, [Stat ''go1.21.0/a.tar.gz''])"
    by (simp add: checkHash_def Let_def osStat_def evals)
  have dl: "downloadFile (testSys NoResponse) (fsWith Missing Missing) ''go1.21.0''
        (art ''a.tar.gz'' ''ab'' 3)
       = (fsWith Missing Missing,
          [Print ErrOut (Getting ''https://golang.org/dl/a.tar.gz''),
           Visit ''https://golang.org/dl/a.tar.gz'',
           Print ErrOut (CouldNotVisit ''https://golang.org/dl/a.tar.gz'')])"
    by (simp add: downloadFile_def Let_def evals fileDownloadFmt_def)
  show ?thesis
    using C9_non_200 [OF v, of "fsWith Missing Missing" "''go1.21.0''"]
      C9_non_200 [OF v2, of "fsWith Missing Missing" "''go1.21.0''"] ns ch dl
    by (simp add: evals)
qed

section \<open>A run from a settled state fetches nothing\<close>

lemma withStore_paths [simp]:
  "dlTarget (withStore S visited) dir d = dlTarget S dir d"
  by (simp add: withStore_def dlTarget_def)

lemma settled_withStore [simp]:
  "settled (withStore S visited) fs dir d = settled S fs dir d"
  unfolding settled_def withStore_paths ..

lemma checkHash_settled:
  assumes "settled S fs dir file"
  shows "checkHash S fs dir file =
           (Some True, fs, [Stat (dlTarget S dir file), ReadFile (dlSHA (dlTarget S dir file))])"
  using assms
  by (auto simp: settled_def checkHash_def Let_def osStat_def readFile_def Equal_decodes
      split: node.splits option.splits)

lemma processFile_settled:
  assumes "skipFile d \<or> settled S fs dir d"
  shows "\<exists>evs. processFile S dir d fs = (True, fs, evs) \<and> (\<forall>e \<in> set evs. \<not> isVisit e)"
  using assms by (auto simp: processFile_def checkHash_settled)

lemma visitedIn_none: "(\<forall>e \<in> set evs. \<not> isVisit e) \<Longrightarrow> visitedIn evs = []"
  by (induction evs rule: visitedIn.induct) auto

lemma loopFiles_settled:
  assumes "list_all (\<lambda>d. skipFile d \<or> settled S fs dir d) ds"
  shows "\<exists>evs. loopFiles S dir ds visited fs = (True, visited, fs, evs)
           \<and> (\<forall>e \<in> set evs. \<not> isVisit e)"
  using assms
proof (induction ds)
  case Nil
  show ?case by simp
next
  case (Cons d ds)
  from Cons.prems have "skipFile d \<or> settled (withStore S visited) fs dir d" by simp
  from processFile_settled[OF this] obtain evs1 where
    p: "processFile (withStore S visited) dir d fs = (True, fs, evs1)"
    and n1: "\<forall>e \<in> set evs1. \<not> isVisit e" by auto
  from Cons obtain evs2 where
    l: "loopFiles S dir ds visited fs = (True, visited, fs, evs2)"
    and n2: "\<forall>e \<in> set evs2. \<not> isVisit e"
    by auto
  from p l n1 n2 visitedIn_none[OF n1] show ?case by auto
qed

lemma ensureDirectory_frame:
  assumes "ensureDirectory S fs name = (ok, fs', evs)"
  shows "(\<forall>e \<in> set evs. \<not> isVisit e) \<and> (fs' = fs \<or> (fs name = Missing \<and> fs' = fs(name := Dir)))"
  using assms
  by (auto simp: ensureDirectory_def mkdir_def split: res.splits option.splits if_splits)

lemma settled_mkdir:
  assumes "fs name = Missing"
  shows "settled S (fs(name := Dir)) dir d = settled S fs dir d"
  using assms by (auto simp: settled_def split: node.splits)

lemma allSettled_mkdir:
  assumes "fs name = Missing"
  shows "allSettled S (fs(name := Dir)) rs = allSettled S fs rs"
  using assms by (simp add: allSettled_def settled_mkdir)

lemma processRelease_settled:
  assumes "allSettled S fs rs" and "r \<in> set rs"
  shows "\<exists>fs' evs. processRelease S r visited fs = (True, visited, fs', evs)
           \<and> (\<forall>e \<in> set evs. \<not> isVisit e) \<and> allSettled S fs' rs"
proof (cases "skipRelease (Release.Version r)")
  case True
  with assms show ?thesis by (simp add: processRelease_def)
next
  case False
  obtain ok fs1 evs1 where ed: "ensureDirectory S fs (Release.Version r) = (ok, fs1, evs1)"
    by (cases "ensureDirectory S fs (Release.Version r)") auto
  from ensureDirectory_frame[OF ed] have n1: "\<forall>e \<in> set evs1. \<not> isVisit e"
    and fr: "fs1 = fs \<or> (fs (Release.Version r) = Missing \<and> fs1 = fs((Release.Version r) := Dir))"
    by auto
  from fr assms(1) have a1: "allSettled S fs1 rs"
    by (auto simp: allSettled_mkdir)
  show ?thesis
  proof (cases ok)
    case False
    with ed \<open>\<not> skipRelease (Release.Version r)\<close> n1 a1 show ?thesis
      by (simp add: processRelease_def)
  next
    case True
    from a1 assms(2) \<open>\<not> skipRelease (Release.Version r)\<close>
    have "list_all (\<lambda>d. skipFile d \<or> settled S fs1 (Release.Version r) d) (Downloads r)"
      by (auto simp: allSettled_def list_all_iff)
    from loopFiles_settled[OF this, of visited] obtain evs2 where
      l: "loopFiles S (Release.Version r) (Downloads r) visited fs1 = (True, visited, fs1, evs2)"
      and n2: "\<forall>e \<in> set evs2. \<not> isVisit e" by auto
    from True ed l \<open>\<not> skipRelease (Release.Version r)\<close> n1 n2 a1 show ?thesis
      by (auto simp: processRelease_def)
  qed
qed

lemma loopReleases_settled:
  assumes "allSettled S fs cat" and "set rs \<subseteq> set cat"
  shows "\<exists>fs' evs. loopReleases S rs visited fs = (True, visited, fs', evs)
           \<and> (\<forall>e \<in> set evs. \<not> isVisit e) \<and> allSettled S fs' cat"
  using assms
proof (induction rs arbitrary: fs)
  case Nil
  then show ?case by simp
next
  case (Cons r rs)
  from Cons.prems have "r \<in> set cat" by simp
  from processRelease_settled[OF Cons.prems(1) this, of visited] obtain fs1 evs1 where
    p: "processRelease S r visited fs = (True, visited, fs1, evs1)"
    and n1: "\<forall>e \<in> set evs1. \<not> isVisit e"
    and a1: "allSettled S fs1 cat" by auto
  from Cons.prems have "set rs \<subseteq> set cat" by simp
  from Cons.IH[OF a1 this] obtain fs2 evs2 where
    q: "loopReleases S rs visited fs1 = (True, visited, fs2, evs2)"
    and n2: "\<forall>e \<in> set evs2. \<not> isVisit e"
    and a2: "allSettled S fs2 cat" by auto
  from p q n1 n2 a2 show ?case by auto
qed

lemma reconcile_settled:
  assumes "allSettled S fs cat"
  shows "\<exists>fs' evs. reconcile S cat fs = (True, fs', evs) \<and> (\<forall>e \<in> set evs. \<not> isVisit e)
           \<and> allSettled S fs' cat"
  using loopReleases_settled[OF assms subset_refl, of "[dlURL]"]
  by (auto simp: reconcile_def)

section \<open>What a run wrote\<close>

text \<open>
  Each step of the loop writes to the paths of its own artifact only. With pairwise
  distinct paths, what the whole trace wrote to the paths of an artifact is what the
  step of that artifact wrote, and the state of those paths after that step is their
  state at the end of the run.
\<close>

lemma writesTo_append [simp]: "writesTo p (a @ b) = writesTo p a @ writesTo p b"
  by (induction p a rule: writesTo.induct) auto

lemma writesTo_mem: "c \<in> set (writesTo p evs) \<longleftrightarrow> WriteFile p c True \<in> set evs"
  by (induction p evs rule: writesTo.induct) auto

lemma writeFile_frame: "writeFile S fs p content = Some fs' \<Longrightarrow> q \<noteq> p \<Longrightarrow> fs' q = fs q"
  by (auto simp: writeFile_def split: if_splits node.splits)

lemma writeFile_result:
  "writeFile S fs p content = Some fs' \<Longrightarrow>
   writable S p \<and> (\<exists>r. fs' p = Reg content r \<and> (fs p = Missing \<and> r \<or> (\<exists>c. fs p = Reg c r)))"
  by (auto simp: writeFile_def split: if_splits node.splits)

lemma writeFile_again:
  "writable S p \<Longrightarrow> fs p = Reg c r \<Longrightarrow> \<exists>fs'. writeFile S fs p content = Some fs'"
  by (simp add: writeFile_def)

text \<open>What \<open>checkHash\<close> may have done to the two paths of its artifact.\<close>

lemma checkHash_effect:
  assumes "checkHash S fs dir d = (v, fs1, evs)"
  shows "writesTo q evs = [] \<or> (q = dlSHA (dlTarget S dir d)
           \<and> writable S q \<and> fs q = Missing \<and> (\<exists>c. fs1 q = Reg c True))"
    and "q \<noteq> dlSHA (dlTarget S dir d) \<Longrightarrow> fs1 q = fs q"
    and "fs1 (dlSHA (dlTarget S dir d)) = fs (dlSHA (dlTarget S dir d))
         \<or> (\<exists>c. fs1 (dlSHA (dlTarget S dir d)) = Reg c True)"
  using assms
  by (auto simp: checkHash_def Let_def computeHash_def writeHash_def writeFile_def readFile_def
      split: res.splits if_splits option.splits opened.splits node.splits)

lemma downloadFile_effect:
  assumes "downloadFile S fs dir d = (fs2, evs)"
  shows "q \<noteq> dlTarget S dir d \<Longrightarrow> q \<noteq> dlSHA (dlTarget S dir d) \<Longrightarrow>
           writesTo q evs = [] \<and> fs2 q = fs q"
    and "writesTo (dlTarget S dir d) evs \<noteq> [] \<Longrightarrow>
           (\<exists>body r. body \<in> set (writesTo (dlTarget S dir d) evs)
              \<and> fs2 (dlTarget S dir d) = Reg body r)
           \<and> (writesTo (dlSHA (dlTarget S dir d)) evs \<noteq> [] \<longrightarrow>
                (\<exists>r'. fs2 (dlSHA (dlTarget S dir d)) = Reg (SHA256Sum d) r'))
           \<and> (writesTo (dlSHA (dlTarget S dir d)) evs = [] \<longrightarrow>
                \<not> (writable S (dlSHA (dlTarget S dir d))
                   \<and> (\<exists>c r. fs (dlSHA (dlTarget S dir d)) = Reg c r)))"
  using assms
  by (auto simp: downloadFile_def Let_def writeHash_def writeFile_def
      split: outcome.splits if_splits option.splits node.splits)

lemma processFile_frame:
  assumes "processFile S dir d fs = (ok, fs', evs)"
    and "q \<noteq> dlTarget S dir d" and "q \<noteq> dlSHA (dlTarget S dir d)"
  shows "fs' q = fs q \<and> writesTo q evs = []"
proof (cases "skipFile d")
  case True
  with assms show ?thesis by (auto simp: processFile_def)
next
  case False
  obtain v fs1 evs1 where ch: "checkHash S fs dir d = (v, fs1, evs1)"
    by (cases "checkHash S fs dir d") auto
  have f1: "fs1 q = fs q" using checkHash_effect(2)[OF ch assms(3)] .
  have w1: "writesTo q evs1 = []" using checkHash_effect(1)[OF ch, of q] assms(3) by auto
  obtain fs2 evs2 where dl: "downloadFile S fs1 dir d = (fs2, evs2)"
    by (cases "downloadFile S fs1 dir d") auto
  have f2: "writesTo q evs2 = [] \<and> fs2 q = fs1 q" using downloadFile_effect(1)[OF dl assms(2,3)] .
  from assms(1) False ch dl f1 w1 f2 show ?thesis
    by (auto simp: processFile_def split: option.splits bool.splits)
qed

lemma processFile_written:
  assumes p: "processFile S dir d fs = (ok, fs', evs)"
    and wt: "writesTo (dlTarget S dir d) evs \<noteq> []"
    and ws: "writesTo (dlSHA (dlTarget S dir d)) evs \<noteq> []"
  shows "\<exists>body r r'. body \<in> set (writesTo (dlTarget S dir d) evs)
           \<and> fs' (dlTarget S dir d) = Reg body r
           \<and> fs' (dlSHA (dlTarget S dir d)) = Reg (SHA256Sum d) r'"
proof -
  let ?t = "dlTarget S dir d" and ?h = "dlSHA (dlTarget S dir d)"
  from p wt have ns: "\<not> skipFile d" by (auto simp: processFile_def)
  obtain v fs1 e1 where ch: "checkHash S fs dir d = (v, fs1, e1)"
    by (cases "checkHash S fs dir d") auto
  have t1: "writesTo ?t e1 = []" using checkHash_effect(1)[OF ch, of ?t] by auto
  obtain fs2 e2 where dl: "downloadFile S fs1 dir d = (fs2, e2)"
    by (cases "downloadFile S fs1 dir d") auto
  from p ns ch dl t1 wt
  have ev: "writesTo ?t evs = writesTo ?t e2" "writesTo ?h evs = writesTo ?h e1 @ writesTo ?h e2"
    and fs': "fs' = fs2"
    by (auto simp: processFile_def split: option.splits bool.splits)
  from wt ev have wt2: "writesTo ?t e2 \<noteq> []" by simp
  note D = downloadFile_effect(2)[OF dl wt2]
  from D obtain body r where b: "body \<in> set (writesTo ?t e2)" "fs2 ?t = Reg body r" by blast
  have "\<exists>r'. fs2 ?h = Reg (SHA256Sum d) r'"
  proof (cases "writesTo ?h e2 = []")
    case False
    with D show ?thesis by blast
  next
    case True
    with ws ev have "writesTo ?h e1 \<noteq> []" by simp
    with checkHash_effect(1)[OF ch, of ?h] have "writable S ?h" "\<exists>c. fs1 ?h = Reg c True"
      by auto
    with D True show ?thesis by blast
  qed
  with b ev fs' show ?thesis by auto
qed

lemma holdsWritten_cong:
  assumes "fs' (dlTarget S dir d) = fs (dlTarget S dir d)"
    and "fs' (dlSHA (dlTarget S dir d)) = fs (dlSHA (dlTarget S dir d))"
    and "writesTo (dlTarget S dir d) evs' = writesTo (dlTarget S dir d) evs"
    and "writesTo (dlSHA (dlTarget S dir d)) evs' = writesTo (dlSHA (dlTarget S dir d)) evs"
  shows "holdsWritten S evs' fs' dir d = holdsWritten S evs fs dir d"
  unfolding holdsWritten_def assms ..

lemma artifactPaths_mem:
  "\<not> skipFile d \<Longrightarrow> d \<in> set ds \<Longrightarrow>
   dlTarget S dir d \<in> set (concat (map (artifactPaths S dir) (filter (\<lambda>d. \<not> skipFile d) ds)))
   \<and> dlSHA (dlTarget S dir d)
        \<in> set (concat (map (artifactPaths S dir) (filter (\<lambda>d. \<not> skipFile d) ds)))"
  by (auto simp: artifactPaths_def)

lemma loopFiles_written:
  assumes "loopFiles S dir ds visited fs = (ok, visited', fs', evs)"
    and "distinct (concat (map (artifactPaths S dir) (filter (\<lambda>d. \<not> skipFile d) ds)))"
  shows "(\<forall>q. q \<notin> set (concat (map (artifactPaths S dir) (filter (\<lambda>d. \<not> skipFile d) ds)))
              \<longrightarrow> fs' q = fs q \<and> writesTo q evs = [])
         \<and> (\<forall>d \<in> set ds. \<not> skipFile d \<longrightarrow> holdsWritten S evs fs' dir d)"
  using assms
proof (induction ds arbitrary: visited fs ok visited' fs' evs)
  case Nil
  then show ?case by simp
next
  case (Cons d ds)
  let ?P = "\<lambda>ds. set (concat (map (artifactPaths S dir) (filter (\<lambda>d. \<not> skipFile d) ds)))"
  let ?t = "dlTarget S dir d" and ?h = "dlSHA (dlTarget S dir d)"
  obtain fs1 e1 where p: "processFile (withStore S visited) dir d fs = (True, fs1, e1)"
    using processFile_continues[of "withStore S visited" dir d fs]
    by (cases "processFile (withStore S visited) dir d fs") auto
  obtain ok2 v2 fs2 e2 where
    l: "loopFiles S dir ds (visitedIn e1 @ visited) fs1 = (ok2, v2, fs2, e2)"
    by (cases "loopFiles S dir ds (visitedIn e1 @ visited) fs1") auto
  from Cons.prems(1) p l have res: "fs' = fs2" "evs = e1 @ e2" by auto
  from Cons.prems(2) have dds:
    "distinct (concat (map (artifactPaths S dir) (filter (\<lambda>d. \<not> skipFile d) ds)))"
    by (cases "skipFile d") auto
  from Cons.IH[OF l dds] have
    f2: "\<And>q. q \<notin> ?P ds \<Longrightarrow> fs2 q = fs1 q \<and> writesTo q e2 = []"
    and h2: "\<And>d'. d' \<in> set ds \<Longrightarrow> \<not> skipFile d' \<Longrightarrow> holdsWritten S e2 fs2 dir d'"
    by auto
  have f1: "fs1 q = fs q \<and> writesTo q e1 = []" if "skipFile d \<or> (q \<noteq> ?t \<and> q \<noteq> ?h)" for q
  proof (cases "skipFile d")
    case True
    with p show ?thesis by (auto simp: processFile_def)
  next
    case False
    with that processFile_frame[OF p, of q] show ?thesis by simp
  qed
  show ?case
  proof (intro conjI allI impI ballI)
    fix q assume q: "q \<notin> ?P (d # ds)"
    then have "q \<notin> ?P ds" "skipFile d \<or> (q \<noteq> ?t \<and> q \<noteq> ?h)"
      by (auto simp: artifactPaths_def[of S dir d])
    with f1[of q] f2[of q] res show "fs' q = fs q" "writesTo q evs = []" by auto
  next
    fix d' assume m: "d' \<in> set (d # ds)" and ns: "\<not> skipFile d'"
    show "holdsWritten S evs fs' dir d'"
    proof (cases "d' \<in> set ds")
      case True
      let ?t' = "dlTarget S dir d'" and ?h' = "dlSHA (dlTarget S dir d')"
      from artifactPaths_mem[OF ns True, of S dir] have in': "?t' \<in> ?P ds" "?h' \<in> ?P ds" by auto
      have "skipFile d \<or> (?t' \<noteq> ?t \<and> ?t' \<noteq> ?h)" "skipFile d \<or> (?h' \<noteq> ?t \<and> ?h' \<noteq> ?h)"
        using Cons.prems(2) in' by (auto simp: artifactPaths_def[of S dir d])
      with f1[of ?t'] f1[of ?h'] res
      have "writesTo ?t' evs = writesTo ?t' e2" "writesTo ?h' evs = writesTo ?h' e2" by auto
      then have "holdsWritten S evs fs2 dir d' = holdsWritten S e2 fs2 dir d'"
        by (intro holdsWritten_cong) auto
      with h2[OF True ns] res show ?thesis by simp
    next
      case False
      with m have e: "d' = d" by simp
      with ns Cons.prems(2) have out: "?t \<notin> ?P ds" "?h \<notin> ?P ds"
        by (auto simp: artifactPaths_def[of S dir d])
      from f2[OF out(1)] f2[OF out(2)] res
      have eq: "fs' ?t = fs1 ?t" "fs' ?h = fs1 ?h" "writesTo ?t evs = writesTo ?t e1"
        "writesTo ?h evs = writesTo ?h e1" by auto
      have "holdsWritten (withStore S visited) e1 fs1 dir d"
        unfolding holdsWritten_def using processFile_written[OF p] by blast
      then have "holdsWritten S e1 fs1 dir d" by (simp add: holdsWritten_def)
      moreover have "holdsWritten S evs fs' dir d = holdsWritten S e1 fs1 dir d"
        using eq by (intro holdsWritten_cong)
      ultimately show ?thesis using e by simp
    qed
  qed
qed

lemma releasePaths_mem:
  "\<not> skipFile d \<Longrightarrow> d \<in> set (Downloads r) \<Longrightarrow>
   dlTarget S (Release.Version r) d \<in> set (releasePaths S r)
   \<and> dlSHA (dlTarget S (Release.Version r) d) \<in> set (releasePaths S r)"
  by (auto simp: releasePaths_def artifactPaths_def)

lemma ensureDirectory_effect:
  assumes "ensureDirectory S fs name = (ok, fs', evs)"
  shows "writesTo q evs = []" and "q \<noteq> name \<Longrightarrow> fs' q = fs q"
  using assms
  by (auto simp: ensureDirectory_def mkdir_def split: res.splits option.splits if_splits)

lemma processRelease_written:
  assumes p: "processRelease S r visited fs = (ok, visited', fs', evs)"
    and ns: "\<not> skipRelease (Release.Version r)"
    and d: "distinct (releasePaths S r)"
  shows "(\<forall>q. q \<notin> set (releasePaths S r) \<longrightarrow> fs' q = fs q \<and> writesTo q evs = [])
         \<and> (\<forall>d \<in> set (Downloads r). \<not> skipFile d \<longrightarrow>
               holdsWritten S evs fs' (Release.Version r) d)"
proof -
  let ?n = "Release.Version r"
  let ?ps = "concat (map (artifactPaths S ?n) (filter (\<lambda>d. \<not> skipFile d) (Downloads r)))"
  from d have dps: "distinct ?ps" by (simp add: releasePaths_def)
  obtain okd fs1 e1 where ed: "ensureDirectory S fs ?n = (okd, fs1, e1)"
    by (cases "ensureDirectory S fs ?n") auto
  note E = ensureDirectory_effect[OF ed]
  show ?thesis
  proof (cases okd)
    case False
    with p ns ed have "fs' = fs1" "evs = e1" by (auto simp: processRelease_def)
    with E show ?thesis by (auto simp: releasePaths_def holdsWritten_def)
  next
    case True
    obtain ok2 v2 fs2 e2 where
      l: "loopFiles S ?n (Downloads r) visited fs1 = (ok2, v2, fs2, e2)"
      by (cases "loopFiles S ?n (Downloads r) visited fs1") auto
    from p ns ed True l have res: "fs' = fs2" "evs = e1 @ e2"
      by (auto simp: processRelease_def)
    from loopFiles_written[OF l dps] have
      f2: "\<And>q. q \<notin> set ?ps \<Longrightarrow> fs2 q = fs1 q \<and> writesTo q e2 = []"
      and h2: "\<And>d. d \<in> set (Downloads r) \<Longrightarrow> \<not> skipFile d \<Longrightarrow> holdsWritten S e2 fs2 ?n d"
      by auto
    have "fs' q = fs q \<and> writesTo q evs = []" if "q \<notin> set (releasePaths S r)" for q
      using that f2[of q] E(2)[of q] E(1)[of q] res by (auto simp: releasePaths_def)
    moreover have "holdsWritten S evs fs' ?n d'" if "d' \<in> set (Downloads r)" "\<not> skipFile d'" for d'
    proof -
      have "holdsWritten S evs fs2 ?n d' = holdsWritten S e2 fs2 ?n d'"
        using res E(1) by (intro holdsWritten_cong) auto
      with h2[OF that] res show ?thesis by simp
    qed
    ultimately show ?thesis by blast
  qed
qed

lemma loopReleases_written:
  assumes "loopReleases S rs visited fs = (ok, visited', fs', evs)"
    and "distinct (catalogPaths S rs)"
  shows "(\<forall>q. q \<notin> set (catalogPaths S rs) \<longrightarrow> fs' q = fs q \<and> writesTo q evs = [])
         \<and> forArtifacts rs (holdsWritten S evs fs')"
  using assms
proof (induction rs arbitrary: visited fs ok visited' fs' evs)
  case Nil
  then show ?case by (simp add: forArtifacts_def catalogPaths_def)
next
  case (Cons r rs)
  obtain ok1 v1 fs1 e1 where p: "processRelease S r visited fs = (ok1, v1, fs1, e1)"
    by (cases "processRelease S r visited fs") auto
  show ?case
  proof (cases "skipRelease (Release.Version r)")
    case True
    with p have p1: "ok1" "v1 = visited" "fs1 = fs" "writesTo q e1 = []" for q
      by (auto simp: processRelease_def)
    obtain ok2 v2 fs2 e2 where l: "loopReleases S rs visited fs = (ok2, v2, fs2, e2)"
      by (cases "loopReleases S rs visited fs") auto
    from Cons.prems(1) p p1 l have res: "fs' = fs2" "evs = e1 @ e2" by auto
    from Cons.prems(2) True have dc: "distinct (catalogPaths S rs)"
      and cp: "catalogPaths S (r # rs) = catalogPaths S rs"
      by (simp_all add: catalogPaths_def)
    have w: "writesTo q evs = writesTo q e2" for q using res p1(4) by simp
    from Cons.IH[OF l dc] have
      f2: "\<forall>q. q \<notin> set (catalogPaths S rs) \<longrightarrow> fs2 q = fs q \<and> writesTo q e2 = []"
      and h2: "forArtifacts rs (holdsWritten S e2 fs2)" by auto
    have "holdsWritten S evs fs2 = holdsWritten S e2 fs2"
      by (intro ext) (simp add: holdsWritten_def w)
    with True f2 h2 res cp w show ?thesis by (simp add: forArtifacts_def)
  next
    case False
    have cp: "catalogPaths S (r # rs) = releasePaths S r @ catalogPaths S rs"
      using False by (simp add: catalogPaths_def)
    from Cons.prems(2) have dr: "distinct (releasePaths S r)"
      and dc: "distinct (catalogPaths S rs)"
      and dj: "set (releasePaths S r) \<inter> set (catalogPaths S rs) = {}"
      unfolding cp by auto
    from processRelease_written[OF p False dr] have
      f1: "\<And>q. q \<notin> set (releasePaths S r) \<Longrightarrow> fs1 q = fs q \<and> writesTo q e1 = []"
      and h1: "\<And>d. d \<in> set (Downloads r) \<Longrightarrow> \<not> skipFile d \<Longrightarrow>
                 holdsWritten S e1 fs1 (Release.Version r) d" by auto
    show ?thesis
    proof (cases ok1)
      case F: False
      with Cons.prems(1) p have res: "fs' = fs1" "evs = e1" by auto
      have "holdsWritten S e1 fs1 (Release.Version r') d'"
        if "r' \<in> set rs" "\<not> skipRelease (Release.Version r')" "d' \<in> set (Downloads r')"
          "\<not> skipFile d'" for r' d'
      proof -
        from that have "set (releasePaths S r') \<subseteq> set (catalogPaths S rs)"
          by (auto simp: catalogPaths_def)
        with releasePaths_mem[OF that(4,3), of S] dj
        have "dlTarget S (Release.Version r') d' \<notin> set (releasePaths S r)" by blast
        with f1 show ?thesis by (simp add: holdsWritten_def)
      qed
      with f1 h1 res show ?thesis
        unfolding cp by (auto simp: forArtifacts_def list_all_iff)
    next
      case T: True
      obtain ok2 v2 fs2 e2 where l: "loopReleases S rs v1 fs1 = (ok2, v2, fs2, e2)"
        by (cases "loopReleases S rs v1 fs1") auto
      from Cons.prems(1) p T l have res: "fs' = fs2" "evs = e1 @ e2" by auto
      from Cons.IH[OF l dc] have
        f2: "\<And>q. q \<notin> set (catalogPaths S rs) \<Longrightarrow> fs2 q = fs1 q \<and> writesTo q e2 = []"
        and h2: "forArtifacts rs (holdsWritten S e2 fs2)" by auto
      have a: "holdsWritten S evs fs' (Release.Version r) d'"
        if "d' \<in> set (Downloads r)" "\<not> skipFile d'" for d'
      proof -
        from releasePaths_mem[OF that(2,1), of S] dj
        have "dlTarget S (Release.Version r) d' \<notin> set (catalogPaths S rs)"
          "dlSHA (dlTarget S (Release.Version r) d') \<notin> set (catalogPaths S rs)" by auto
        with f2 res have "holdsWritten S evs fs' (Release.Version r) d'
            = holdsWritten S e1 fs1 (Release.Version r) d'"
          by (intro holdsWritten_cong) auto
        with h1[OF that] show ?thesis by simp
      qed
      have b: "holdsWritten S evs fs' (Release.Version r') d'"
        if "r' \<in> set rs" "\<not> skipRelease (Release.Version r')" "d' \<in> set (Downloads r')"
          "\<not> skipFile d'" for r' d'
      proof -
        from that have "set (releasePaths S r') \<subseteq> set (catalogPaths S rs)"
          by (auto simp: catalogPaths_def)
        with releasePaths_mem[OF that(4,3), of S] dj
        have "dlTarget S (Release.Version r') d' \<notin> set (releasePaths S r)"
          "dlSHA (dlTarget S (Release.Version r') d') \<notin> set (releasePaths S r)" by auto
        with f1 res have "holdsWritten S evs fs' (Release.Version r') d'
            = holdsWritten S e2 fs2 (Release.Version r') d'"
          by (intro holdsWritten_cong) auto
        moreover from h2 that have "holdsWritten S e2 fs2 (Release.Version r') d'"
          by (auto simp: forArtifacts_def list_all_iff)
        ultimately show ?thesis by simp
      qed
      have c: "fs' q = fs q \<and> writesTo q evs = []" if "q \<notin> set (catalogPaths S (r # rs))" for q
        using that f1[of q] f2[of q] res unfolding cp by auto
      from a b c show ?thesis
        by (auto simp: forArtifacts_def list_all_iff)
    qed
  qed
qed

lemma forArtifacts_iff:
  "forArtifacts rs P \<longleftrightarrow>
     (\<forall>r \<in> set rs. \<not> skipRelease (Release.Version r) \<longrightarrow>
        (\<forall>d \<in> set (Downloads r). \<not> skipFile d \<longrightarrow> P (Release.Version r) d))"
  by (auto simp: forArtifacts_def list_all_iff)

lemma settled_other_network [simp]:
  "settled (S\<lparr>visit := net\<rparr>) fs dir d = settled S fs dir d"
proof -
  have t: "dlTarget (S\<lparr>visit := net\<rparr>) dir d = dlTarget S dir d" by (simp add: dlTarget_def)
  show ?thesis unfolding settled_def t ..
qed

lemma written_settled:
  assumes h: "holdsWritten S evs fs dir d"
    and w: "writesTo (dlTarget S dir d) evs \<noteq> [] \<and> writesTo (dlSHA (dlTarget S dir d)) evs \<noteq> []"
    and s: "list_all (\<lambda>body. int (length body) = sint (Size d)) (writesTo (dlTarget S dir d) evs)"
    and b: "Bytes (SHA256Sum d) \<noteq> None"
    and r: "\<not> unreadable (fs (dlSHA (dlTarget S dir d)))"
  shows "settled S fs dir d"
proof -
  from h w obtain body r1 r2 where
    m: "body \<in> set (writesTo (dlTarget S dir d) evs)"
    and t: "fs (dlTarget S dir d) = Reg body r1"
    and sc: "fs (dlSHA (dlTarget S dir d)) = Reg (SHA256Sum d) r2"
    unfolding holdsWritten_def by blast
  from s m have "int (length body) = sint (Size d)" by (auto simp: list_all_iff)
  moreover from r sc have r2 by simp
  moreover from b obtain hb where "hexDecode (SHA256Sum d) = Some hb" by (auto simp: Bytes_def)
  ultimately show ?thesis using t sc by (simp add: settled_def)
qed

section \<open>The reconciliation loop run twice\<close>

lemma not_skipped: "\<not> skipRelease ''go1.21.0''"
  by (simp add: skipRelease_def skipVersions_def skipWords_def)

lemmas run_defs = reconcile_def processRelease_def ensureDirectory_def
  osStat_def mkdir_def processFile_def skipFile_def checkHash_def Let_def readFile_def
  downloadFile_def fileDownloadFmt_def writeFile_def writeHash_def withStore_def dlURL_def
  computeHash_def openAndRead_def


lemmas inst_defs = rel_def not_skipped run_defs emptyFs_def fsAfter_def fsWith_def
  dlTarget_def dlSHA_def testSys_def slashJoin_def art_def forArtifacts_def
  catalogPaths_def releasePaths_def artifactPaths_def




text \<open>
  The other three conditions are needed as well. In each of the instances below the
  first run writes every file and every sidecar, with the declared sizes, and all
  conditions but one hold; the second run fetches again. First an expected hash that is
  not hexadecimal, then a sidecar that existed before as a file the process may write
  but not read, then an artifact stored at the path of another's sidecar.
\<close>

lemma malformed_hash_fetched_again:
  "distinct (catalogPaths (testSys (Response 200 ''xyz'')) catalogMalformed)
   \<and> writesTo ''go1.21.0/a.tar.gz''
        (snd (snd (reconcile (testSys (Response 200 ''xyz'')) catalogMalformed emptyFs)))
       = [''xyz'']
   \<and> writesTo ''go1.21.0/a.tar.gz.sha''
        (snd (snd (reconcile (testSys (Response 200 ''xyz'')) catalogMalformed emptyFs)))
       = [''zz'']
   \<and> fst (snd (reconcile (testSys (Response 200 ''xyz'')) catalogMalformed emptyFs))
        ''go1.21.0/a.tar.gz.sha'' = Reg ''zz'' True
   \<and> Bytes ''zz'' = None
   \<and> snd (snd (reconcile (testSys (Response 200 ''xyz'')) catalogMalformed
        (fst (snd (reconcile (testSys (Response 200 ''xyz'')) catalogMalformed emptyFs))))) =
      [Stat ''go1.21.0'', Stat ''go1.21.0/a.tar.gz'', ReadFile ''go1.21.0/a.tar.gz.sha'',
       Print ErrOut (MalformedHashFile ''go1.21.0/a.tar.gz.sha''),
       Print StatusOut (Downloading ''go1.21.0'' ''a.tar.gz'' ''zz''),
       Print ErrOut (Getting ''https://golang.org/dl/a.tar.gz''),
       Visit ''https://golang.org/dl/a.tar.gz'',
       WriteFile ''go1.21.0/a.tar.gz'' ''xyz'' True,
       Print StatusOut (Downloaded ''go1.21.0/a.tar.gz''),
       WriteFile ''go1.21.0/a.tar.gz.sha'' ''zz'' True,
       Print StatusOut (SavedHash ''go1.21.0/a.tar.gz.sha'')]"
  by (simp add: catalogMalformed_def inst_defs Bytes_def fromHexChar_def reverseHexTable_def)

lemma unreadable_sidecar_fetched_again:
  "distinct (catalogPaths (testSys (Response 200 ''xyz'')) catalog1)
   \<and> writesTo ''go1.21.0/a.tar.gz''
        (snd (snd (reconcile (testSys (Response 200 ''xyz'')) catalog1
                     (fsWith Missing (Reg ''00'' False)))))
       = [''xyz'']
   \<and> writesTo ''go1.21.0/a.tar.gz.sha''
        (snd (snd (reconcile (testSys (Response 200 ''xyz'')) catalog1
                     (fsWith Missing (Reg ''00'' False)))))
       = [''ab'']
   \<and> fst (snd (reconcile (testSys (Response 200 ''xyz'')) catalog1
                 (fsWith Missing (Reg ''00'' False))))
        ''go1.21.0/a.tar.gz.sha'' = Reg ''ab'' False
   \<and> snd (snd (reconcile (testSys (Response 200 ''xyz'')) catalog1
        (fst (snd (reconcile (testSys (Response 200 ''xyz'')) catalog1
                     (fsWith Missing (Reg ''00'' False))))))) =
      [Stat ''go1.21.0'', Stat ''go1.21.0/a.tar.gz'', ReadFile ''go1.21.0/a.tar.gz.sha'',
       Print ErrOut (CouldNotRead ''go1.21.0/a.tar.gz.sha''),
       Print StatusOut (Downloading ''go1.21.0'' ''a.tar.gz'' ''ab''),
       Print ErrOut (Getting ''https://golang.org/dl/a.tar.gz''),
       Visit ''https://golang.org/dl/a.tar.gz'',
       WriteFile ''go1.21.0/a.tar.gz'' ''xyz'' True,
       Print StatusOut (Downloaded ''go1.21.0/a.tar.gz''),
       WriteFile ''go1.21.0/a.tar.gz.sha'' ''ab'' True,
       Print StatusOut (SavedHash ''go1.21.0/a.tar.gz.sha'')]"
  by (simp add: catalog1_def inst_defs)

lemma shared_path_fetched_again:
  "\<not> distinct (catalogPaths (testSys (Response 200 ''xy'')) catalogShared)
   \<and> writesTo ''go1.21.0/a.tar.gz''
        (snd (snd (reconcile (testSys (Response 200 ''xy'')) catalogShared emptyFs)))
       = [''xy'']
   \<and> writesTo ''go1.21.0/a.tar.gz.sha''
        (snd (snd (reconcile (testSys (Response 200 ''xy'')) catalogShared emptyFs)))
       = [''ab'', ''xy'']
   \<and> writesTo ''go1.21.0/a.tar.gz.sha.sha''
        (snd (snd (reconcile (testSys (Response 200 ''xy'')) catalogShared emptyFs)))
       = [''02'', ''cd'']
   \<and> Bytes ''ab'' \<noteq> None \<and> Bytes ''cd'' \<noteq> None
   \<and> fst (snd (reconcile (testSys (Response 200 ''xy'')) catalogShared emptyFs))
        ''go1.21.0/a.tar.gz.sha'' = Reg ''xy'' True
   \<and> fst (snd (reconcile (testSys (Response 200 ''xy'')) catalogShared emptyFs))
        ''go1.21.0/a.tar.gz.sha.sha'' = Reg ''cd'' True
   \<and> Visit ''https://golang.org/dl/a.tar.gz''
        \<in> set (snd (snd (reconcile (testSys (Response 200 ''xy'')) catalogShared
             (fst (snd (reconcile (testSys (Response 200 ''xy'')) catalogShared emptyFs))))))"
  by (simp add: catalogShared_def inst_defs Bytes_def fromHexChar_def reverseHexTable_def
      Equal_decodes lengthDigest_def hextable_def)

text \<open>
  The store at work: a catalog that lists one artifact twice, with a body that is too
  short. The second entry finds the size mismatch and asks for the same URL again;
  \<open>Visit\<close> refuses, and nothing more is written.
\<close>

lemma second_visit_refused:
  "reconcile (testSys (Response 200 ''xy'')) catalogTwice emptyFs =
     (True, fsAfter ''xy'',
      [Stat ''go1.21.0'', Mkdir ''go1.21.0'' True, Stat ''go1.21.0/a.tar.gz'',
       Print StatusOut (Downloading ''go1.21.0'' ''a.tar.gz'' ''ab''),
       Print ErrOut (Getting ''https://golang.org/dl/a.tar.gz''),
       Visit ''https://golang.org/dl/a.tar.gz'',
       WriteFile ''go1.21.0/a.tar.gz'' ''xy'' True,
       Print StatusOut (Downloaded ''go1.21.0/a.tar.gz''),
       WriteFile ''go1.21.0/a.tar.gz.sha'' ''ab'' True,
       Print StatusOut (SavedHash ''go1.21.0/a.tar.gz.sha''),
       Stat ''go1.21.0/a.tar.gz'',
       Print ErrOut (SizeMismatch ''go1.21.0/a.tar.gz'' 2 3),
       Print StatusOut (Downloading ''go1.21.0'' ''a.tar.gz'' ''ab''),
       Print ErrOut (Getting ''https://golang.org/dl/a.tar.gz''),
       Visit ''https://golang.org/dl/a.tar.gz'',
       Print ErrOut (CouldNotVisit ''https://golang.org/dl/a.tar.gz'')])"
  by (simp add: catalogTwice_def inst_defs)

section \<open>A fresh mirror\<close>

text \<open>
  A run that starts where no path of the catalog exists yet, with pairwise distinct paths
  and URLs, every path writable and every artifact delivered, fetches and writes every
  artifact; with well-formed hashes, a second run fetches nothing.
\<close>

lemma wroteBoth_cong:
  assumes "fs' (dlSHA (dlTarget S dir d)) = fs (dlSHA (dlTarget S dir d))"
    and "writesTo (dlTarget S dir d) evs' = writesTo (dlTarget S dir d) evs"
    and "writesTo (dlSHA (dlTarget S dir d)) evs' = writesTo (dlSHA (dlTarget S dir d)) evs"
  shows "wroteBoth S evs' fs' dir d = wroteBoth S evs fs dir d"
  unfolding wroteBoth_def assms ..

lemma visitedIn_append [simp]: "visitedIn (a @ b) = visitedIn a @ visitedIn b"
  by (induction a rule: visitedIn.induct) auto

lemma processFile_fresh:
  assumes "\<not> skipFile d" and "delivered S d"
    and "fs (dlTarget S dir d) = Missing" and "fs (dlSHA (dlTarget S dir d)) = Missing"
    and "writable S (dlTarget S dir d)" and "writable S (dlSHA (dlTarget S dir d))"
    and "fileDownloadFmt (Filename d) \<notin> set visited"
  shows "\<exists>fs1 e1. processFile (withStore S visited) dir d fs = (True, fs1, e1)
           \<and> wroteBoth S e1 fs1 dir d \<and> visitedIn e1 = [fileDownloadFmt (Filename d)]"
  using assms
  by (auto simp: delivered_def processFile_def checkHash_def osStat_def Let_def downloadFile_def
      withStore_def writeFile_def writeHash_def wroteBoth_def dlTarget_def
      split: outcome.splits)

lemma loopFiles_fresh:
  assumes "loopFiles S dir ds visited fs = (ok, visited', fs', evs)"
    and "distinct (concat (map (artifactPaths S dir) (filter (\<lambda>d. \<not> skipFile d) ds)))"
    and "distinct (map (\<lambda>d. fileDownloadFmt (Filename d)) (filter (\<lambda>d. \<not> skipFile d) ds))"
    and "set (map (\<lambda>d. fileDownloadFmt (Filename d)) (filter (\<lambda>d. \<not> skipFile d) ds))
           \<inter> set visited = {}"
    and "\<forall>p \<in> set (concat (map (artifactPaths S dir) (filter (\<lambda>d. \<not> skipFile d) ds))).
           fs p = Missing \<and> writable S p"
    and "\<forall>d \<in> set ds. \<not> skipFile d \<longrightarrow> delivered S d"
  shows "ok
         \<and> set visited' = set visited
              \<union> set (map (\<lambda>d. fileDownloadFmt (Filename d)) (filter (\<lambda>d. \<not> skipFile d) ds))
         \<and> (\<forall>d \<in> set ds. \<not> skipFile d \<longrightarrow> wroteBoth S evs fs' dir d)"
  using assms
proof (induction ds arbitrary: visited fs ok visited' fs' evs)
  case Nil
  then show ?case by simp
next
  case (Cons d ds)
  let ?P = "\<lambda>ds. set (concat (map (artifactPaths S dir) (filter (\<lambda>d. \<not> skipFile d) ds)))"
  let ?U = "\<lambda>ds. map (\<lambda>d. fileDownloadFmt (Filename d)) (filter (\<lambda>d. \<not> skipFile d) ds)"
  let ?t = "dlTarget S dir d" and ?h = "dlSHA (dlTarget S dir d)"
  show ?case
  proof (cases "skipFile d")
    case True
    then have p: "processFile (withStore S visited) dir d fs
                  = (True, fs, [Print ErrOut (SkippingFile dir (Filename d))])"
      by (simp add: processFile_def)
    obtain ok2 v2 fs2 e2 where l: "loopFiles S dir ds visited fs = (ok2, v2, fs2, e2)"
      by (cases "loopFiles S dir ds visited fs") auto
    from Cons.prems(1) p l have res: "ok = ok2" "visited' = v2" "fs' = fs2"
      "evs = Print ErrOut (SkippingFile dir (Filename d)) # e2" by auto
    from Cons.prems True have
      "distinct (concat (map (artifactPaths S dir) (filter (\<lambda>d. \<not> skipFile d) ds)))"
      "distinct (?U ds)" "set (?U ds) \<inter> set visited = {}"
      "\<forall>p \<in> ?P ds. fs p = Missing \<and> writable S p"
      "\<forall>d \<in> set ds. \<not> skipFile d \<longrightarrow> delivered S d" by auto
    from Cons.IH[OF l this] have
      i: "ok2" "set v2 = set visited \<union> set (?U ds)"
      "\<forall>d \<in> set ds. \<not> skipFile d \<longrightarrow> wroteBoth S e2 fs2 dir d" by auto
    have "wroteBoth S evs fs2 dir d' = wroteBoth S e2 fs2 dir d'" for d'
      unfolding res by (intro wroteBoth_cong) auto
    with i res True show ?thesis by auto
  next
    case False
    from Cons.prems(2) False
    have dall: "distinct (artifactPaths S dir d @
                  concat (map (artifactPaths S dir) (filter (\<lambda>d. \<not> skipFile d) ds)))"
      by simp
    then have dds:
      "distinct (concat (map (artifactPaths S dir) (filter (\<lambda>d. \<not> skipFile d) ds)))"
      by simp
    from dall have out: "?t \<notin> ?P ds" "?h \<notin> ?P ds"
      by (auto simp: artifactPaths_def[of S dir d])
    from Cons.prems(5) False have fr: "fs ?t = Missing" "fs ?h = Missing"
      "writable S ?t" "writable S ?h"
      by (auto simp: artifactPaths_def[of S dir d])
    from Cons.prems(3,4) False have u: "fileDownloadFmt (Filename d) \<notin> set visited"
      "fileDownloadFmt (Filename d) \<notin> set (?U ds)" "distinct (?U ds)"
      "set (?U ds) \<inter> set visited = {}" by auto
    from Cons.prems(6) False have dv: "delivered S d"
      "\<forall>d \<in> set ds. \<not> skipFile d \<longrightarrow> delivered S d" by auto
    from processFile_fresh[OF False dv(1) fr u(1)] obtain fs1 e1 where
      p: "processFile (withStore S visited) dir d fs = (True, fs1, e1)"
      and w1: "wroteBoth S e1 fs1 dir d"
      and v1: "visitedIn e1 = [fileDownloadFmt (Filename d)]" by blast
    obtain ok2 v2 fs2 e2 where
      l: "loopFiles S dir ds (fileDownloadFmt (Filename d) # visited) fs1 = (ok2, v2, fs2, e2)"
      by (cases "loopFiles S dir ds (fileDownloadFmt (Filename d) # visited) fs1") auto
    from Cons.prems(1) p l v1 have res: "ok = ok2" "visited' = v2" "fs' = fs2" "evs = e1 @ e2"
      by auto
    have f1: "fs1 q = fs q \<and> writesTo q e1 = []" if "q \<in> ?P ds" for q
    proof -
      from that out have "q \<noteq> ?t" "q \<noteq> ?h" by auto
      with processFile_frame[OF p, of q] show ?thesis by simp
    qed
    have fresh1: "\<forall>p \<in> ?P ds. fs1 p = Missing \<and> writable S p"
      using f1 Cons.prems(5) False by auto
    have u1: "set (?U ds) \<inter> set (fileDownloadFmt (Filename d) # visited) = {}"
      using u by auto
    from Cons.IH[OF l dds u(3) u1 fresh1 dv(2)] have
      i: "ok2" "set v2 = set (fileDownloadFmt (Filename d) # visited) \<union> set (?U ds)"
      "\<forall>d \<in> set ds. \<not> skipFile d \<longrightarrow> wroteBoth S e2 fs2 dir d" by auto
    from loopFiles_written[OF l dds] have
      f2: "\<And>q. q \<notin> ?P ds \<Longrightarrow> fs2 q = fs1 q \<and> writesTo q e2 = []" by auto
    have a: "wroteBoth S evs fs' dir d"
    proof -
      have "wroteBoth S evs fs' dir d = wroteBoth S e1 fs1 dir d"
        using f2[OF out(1)] f2[OF out(2)] res by (intro wroteBoth_cong) auto
      with w1 show ?thesis by simp
    qed
    have b: "wroteBoth S evs fs' dir d'" if "d' \<in> set ds" "\<not> skipFile d'" for d'
    proof -
      from artifactPaths_mem[OF that(2,1), of S dir]
      have "dlTarget S dir d' \<in> ?P ds" "dlSHA (dlTarget S dir d') \<in> ?P ds" by auto
      with f1 res have "wroteBoth S evs fs' dir d' = wroteBoth S e2 fs2 dir d'"
        by (intro wroteBoth_cong) auto
      with i(3) that show ?thesis by simp
    qed
    from a b i res False show ?thesis by auto
  qed
qed

lemma processRelease_fresh:
  assumes p: "processRelease S r visited fs = (ok, visited', fs', evs)"
    and ns: "\<not> skipRelease (Release.Version r)"
    and dr: "distinct (releasePaths S r)"
    and du: "distinct (releaseURLs r)" "set (releaseURLs r) \<inter> set visited = {}"
    and fresh: "\<forall>p \<in> set (releasePaths S r). fs p = Missing \<and> writable S p"
    and net: "\<forall>d \<in> set (Downloads r). \<not> skipFile d \<longrightarrow> delivered S d"
  shows "ok \<and> set visited' = set visited \<union> set (releaseURLs r)
         \<and> (\<forall>d \<in> set (Downloads r). \<not> skipFile d \<longrightarrow> wroteBoth S evs fs' (Release.Version r) d)"
proof -
  let ?n = "Release.Version r"
  let ?ps = "concat (map (artifactPaths S ?n) (filter (\<lambda>d. \<not> skipFile d) (Downloads r)))"
  from dr have nn: "?n \<notin> set ?ps" and dps: "distinct ?ps"
    by (simp_all add: releasePaths_def)
  from fresh have "fs ?n = Missing" "writable S ?n" by (simp_all add: releasePaths_def)
  then have ed: "ensureDirectory S fs ?n = (True, fs(?n := Dir), [Stat ?n, Mkdir ?n True])"
    by (simp add: ensureDirectory_def osStat_def mkdir_def)
  obtain ok2 v2 fs2 e2 where
    l: "loopFiles S ?n (Downloads r) visited (fs(?n := Dir)) = (ok2, v2, fs2, e2)"
    by (cases "loopFiles S ?n (Downloads r) visited (fs(?n := Dir))") auto
  from p ns ed l have res: "ok = ok2" "visited' = v2" "fs' = fs2"
    "evs = [Stat ?n, Mkdir ?n True] @ e2"
    by (auto simp: processRelease_def Let_def)
  have fresh1: "\<forall>p \<in> set ?ps. (fs(?n := Dir)) p = Missing \<and> writable S p"
    using fresh nn by (auto simp: releasePaths_def)
  from loopFiles_fresh[OF l dps du[unfolded releaseURLs_def] fresh1 net]
  have i: "ok2" "set v2 = set visited \<union> set (releaseURLs r)"
    "\<forall>d \<in> set (Downloads r). \<not> skipFile d \<longrightarrow> wroteBoth S e2 fs2 ?n d"
    by (auto simp: releaseURLs_def)
  have "wroteBoth S evs fs2 ?n d = wroteBoth S e2 fs2 ?n d" for d
    unfolding res by (intro wroteBoth_cong) auto
  with i res show ?thesis by simp
qed

lemma loopReleases_fresh:
  assumes "loopReleases S rs visited fs = (ok, visited', fs', evs)"
    and "distinct (catalogPaths S rs)"
    and "distinct (catalogURLs rs)" and "set (catalogURLs rs) \<inter> set visited = {}"
    and "\<forall>p \<in> set (catalogPaths S rs). fs p = Missing \<and> writable S p"
    and "forArtifacts rs (\<lambda>dir d. delivered S d)"
  shows "ok \<and> set visited' = set visited \<union> set (catalogURLs rs)
         \<and> forArtifacts rs (wroteBoth S evs fs')"
  using assms
proof (induction rs arbitrary: visited fs ok visited' fs' evs)
  case Nil
  then show ?case by (simp add: forArtifacts_def catalogURLs_def)
next
  case (Cons r rs)
  obtain ok1 v1 fs1 e1 where p: "processRelease S r visited fs = (ok1, v1, fs1, e1)"
    by (cases "processRelease S r visited fs") auto
  show ?case
  proof (cases "skipRelease (Release.Version r)")
    case True
    with p have p1: "ok1" "v1 = visited" "fs1 = fs" "writesTo q e1 = []" for q
      by (auto simp: processRelease_def)
    obtain ok2 v2 fs2 e2 where l: "loopReleases S rs visited fs = (ok2, v2, fs2, e2)"
      by (cases "loopReleases S rs visited fs") auto
    from Cons.prems(1) p p1 l have res: "ok = ok2" "visited' = v2" "fs' = fs2" "evs = e1 @ e2"
      by auto
    from Cons.prems True have "distinct (catalogPaths S rs)" "distinct (catalogURLs rs)"
      "set (catalogURLs rs) \<inter> set visited = {}"
      "\<forall>p \<in> set (catalogPaths S rs). fs p = Missing \<and> writable S p"
      "forArtifacts rs (\<lambda>dir d. delivered S d)"
      by (simp_all add: catalogPaths_def catalogURLs_def forArtifacts_def)
    from Cons.IH[OF l this] have i: "ok2" "set v2 = set visited \<union> set (catalogURLs rs)"
      "forArtifacts rs (wroteBoth S e2 fs2)" by auto
    have "wroteBoth S evs fs2 = wroteBoth S e2 fs2"
      by (intro ext) (simp add: wroteBoth_def res p1(4))
    with i res True show ?thesis by (simp add: forArtifacts_def catalogURLs_def)
  next
    case False
    have cp: "catalogPaths S (r # rs) = releasePaths S r @ catalogPaths S rs"
      and cu: "catalogURLs (r # rs) = releaseURLs r @ catalogURLs rs"
      using False by (simp_all add: catalogPaths_def catalogURLs_def)
    from Cons.prems(2) have dr: "distinct (releasePaths S r)"
      and dc: "distinct (catalogPaths S rs)"
      and dj: "set (releasePaths S r) \<inter> set (catalogPaths S rs) = {}"
      unfolding cp by auto
    from Cons.prems(3,4) have ur: "distinct (releaseURLs r)" "set (releaseURLs r) \<inter> set visited = {}"
      and uc: "distinct (catalogURLs rs)"
      "set (catalogURLs rs) \<inter> (set visited \<union> set (releaseURLs r)) = {}"
      unfolding cu by auto
    from Cons.prems(5) have fr: "\<forall>p \<in> set (releasePaths S r). fs p = Missing \<and> writable S p"
      and fc: "\<forall>p \<in> set (catalogPaths S rs). fs p = Missing \<and> writable S p"
      unfolding cp by auto
    from Cons.prems(6) False have nr: "\<forall>d \<in> set (Downloads r). \<not> skipFile d \<longrightarrow> delivered S d"
      and nc: "forArtifacts rs (\<lambda>dir d. delivered S d)"
      by (auto simp: forArtifacts_def list_all_iff)
    from processRelease_fresh[OF p False dr ur fr nr] have
      i1: "ok1" "set v1 = set visited \<union> set (releaseURLs r)"
      "\<And>d. d \<in> set (Downloads r) \<Longrightarrow> \<not> skipFile d \<Longrightarrow> wroteBoth S e1 fs1 (Release.Version r) d"
      by auto
    from processRelease_written[OF p False dr] have
      f1: "\<And>q. q \<notin> set (releasePaths S r) \<Longrightarrow> fs1 q = fs q \<and> writesTo q e1 = []" by auto
    obtain ok2 v2 fs2 e2 where l: "loopReleases S rs v1 fs1 = (ok2, v2, fs2, e2)"
      by (cases "loopReleases S rs v1 fs1") auto
    from Cons.prems(1) p i1(1) l have res: "ok = ok2" "visited' = v2" "fs' = fs2" "evs = e1 @ e2"
      by auto
    have fc1: "\<forall>p \<in> set (catalogPaths S rs). fs1 p = Missing \<and> writable S p"
    proof
      fix q assume q: "q \<in> set (catalogPaths S rs)"
      with dj have "q \<notin> set (releasePaths S r)" by blast
      with f1[of q] fc q show "fs1 q = Missing \<and> writable S q" by simp
    qed
    have uc1: "set (catalogURLs rs) \<inter> set v1 = {}" using uc(2) i1(2) by simp
    from Cons.IH[OF l dc uc(1) uc1 fc1 nc] have
      i2: "ok2" "set v2 = set v1 \<union> set (catalogURLs rs)"
      "forArtifacts rs (wroteBoth S e2 fs2)" by auto
    from loopReleases_written[OF l dc] have
      f2: "\<And>q. q \<notin> set (catalogPaths S rs) \<Longrightarrow> fs2 q = fs1 q \<and> writesTo q e2 = []" by auto
    have a: "wroteBoth S evs fs' (Release.Version r) d'"
      if "d' \<in> set (Downloads r)" "\<not> skipFile d'" for d'
    proof -
      from releasePaths_mem[OF that(2,1), of S] dj
      have "dlTarget S (Release.Version r) d' \<notin> set (catalogPaths S rs)"
        "dlSHA (dlTarget S (Release.Version r) d') \<notin> set (catalogPaths S rs)" by auto
      with f2 res have "wroteBoth S evs fs' (Release.Version r) d'
          = wroteBoth S e1 fs1 (Release.Version r) d'"
        by (intro wroteBoth_cong) auto
      with i1(3)[OF that] show ?thesis by simp
    qed
    have b: "wroteBoth S evs fs' (Release.Version r') d'"
      if "r' \<in> set rs" "\<not> skipRelease (Release.Version r')" "d' \<in> set (Downloads r')"
        "\<not> skipFile d'" for r' d'
    proof -
      from that have "set (releasePaths S r') \<subseteq> set (catalogPaths S rs)"
        by (auto simp: catalogPaths_def)
      with releasePaths_mem[OF that(4,3), of S] dj
      have "dlTarget S (Release.Version r') d' \<notin> set (releasePaths S r)"
        "dlSHA (dlTarget S (Release.Version r') d') \<notin> set (releasePaths S r)" by auto
      with f1 res have "wroteBoth S evs fs' (Release.Version r') d'
          = wroteBoth S e2 fs2 (Release.Version r') d'"
        by (intro wroteBoth_cong) auto
      moreover from i2(3) that have "wroteBoth S e2 fs2 (Release.Version r') d'"
        by (auto simp: forArtifacts_def list_all_iff)
      ultimately show ?thesis by simp
    qed
    from a b i1 i2 res show ?thesis
      unfolding cu by (auto simp: forArtifacts_def list_all_iff)
  qed
qed

lemma fresh_mirror_two_runs:
  assumes paths: "distinct (catalogPaths S rs)"
    and urls: "distinct (dlURL # catalogURLs rs)"
    and fresh: "\<forall>p \<in> set (catalogPaths S rs). fs0 p = Missing \<and> writable S p"
    and net: "forArtifacts rs (\<lambda>dir d. delivered S d)"
    and hashes: "forArtifacts rs (\<lambda>dir d. Bytes (SHA256Sum d) \<noteq> None)"
  shows "fst (reconcile S rs fs0)"
    and "forArtifacts rs
           (wroteBoth S (snd (snd (reconcile S rs fs0))) (fst (snd (reconcile S rs fs0))))"
    and "\<forall>e \<in> set (snd (snd (reconcile (S\<lparr>visit := net2\<rparr>) rs (fst (snd (reconcile S rs fs0)))))).
           \<not> isVisit e"
proof -
  obtain ok v fs1 evs1 where l: "loopReleases S rs [dlURL] fs0 = (ok, v, fs1, evs1)"
    by (cases "loopReleases S rs [dlURL] fs0") auto
  then have r: "reconcile S rs fs0 = (ok, fs1, evs1)" by (simp add: reconcile_def)
  from urls have u: "distinct (catalogURLs rs)" "set (catalogURLs rs) \<inter> set [dlURL] = {}"
    by auto
  from loopReleases_fresh[OF l paths u fresh net]
  have ok: ok and wb: "forArtifacts rs (wroteBoth S evs1 fs1)" by auto
  from loopReleases_written[OF l paths]
  have hw: "forArtifacts rs (holdsWritten S evs1 fs1)" by simp
  have "forArtifacts rs (settled S fs1)"
    unfolding forArtifacts_iff
  proof (intro ballI impI)
    fix r d
    assume a: "r \<in> set rs" "\<not> skipRelease (Release.Version r)"
      "d \<in> set (Downloads r)" "\<not> skipFile d"
    with wb have "wroteBoth S evs1 fs1 (Release.Version r) d" by (auto simp: forArtifacts_iff)
    with hw hashes a show "settled S fs1 (Release.Version r) d"
      by (intro written_settled[of S evs1]) (auto simp: forArtifacts_iff wroteBoth_def)
  qed
  then have "allSettled (S\<lparr>visit := net2\<rparr>) fs1 rs"
    by (simp add: allSettled_def forArtifacts_def)
  from reconcile_settled[OF this] obtain fs2 evs2 where
    "reconcile (S\<lparr>visit := net2\<rparr>) rs fs1 = (True, fs2, evs2)"
    "\<forall>e \<in> set evs2. \<not> isVisit e" by blast
  with r ok wb show "fst (reconcile S rs fs0)"
    and "forArtifacts rs
           (wroteBoth S (snd (snd (reconcile S rs fs0))) (fst (snd (reconcile S rs fs0))))"
    and "\<forall>e \<in> set (snd (snd (reconcile (S\<lparr>visit := net2\<rparr>) rs (fst (snd (reconcile S rs fs0)))))).
           \<not> isVisit e"
    by simp_all
qed

end
